theory Spec2Isabelle
  imports Main "HOL-Library.AList"
begin

section \<open>Python values\<close>

text \<open>
  The workflow document, the step configurations, the execution state's \<open>data\<close> and
  the handler results are all Python values of the shapes \<open>json.load\<close> builds:
  \<open>None\<close>, booleans, integers, strings, lists and dictionaries with string keys.
  A dictionary is an association list in insertion order; \<open>map_of\<close> is the lookup and
  \<open>AList.update\<close> is \<open>d[k] = v\<close> (the value is replaced in place, a new key goes to
  the end). Floating-point numbers are not part of the model. A string is a list of
  8-bit characters, read as the code points below 256.
\<close>

datatype json =
    JNull
  | JBool bool
  | JInt int
  | JStr string
  | JList "json list"
  | JObj "(string \<times> json) list"

datatype py_exn =
    KeyError
  | TypeError
  | AttributeError
  | ValueError
  | FileNotFoundError
  | JSONDecodeError
  | GraphRecursionError
  | RecursionError
  | IndexError
  | OtherException
  | Unmodelled

datatype log_level = INFO | WARNING | ERROR

type_synonym log_record = "log_level \<times> string"

text \<open>\<open>current[part]\<close> for a string \<open>part\<close>: a missing key of a dictionary is a
  \<open>KeyError\<close>; a list, a string, a number, a boolean and \<open>None\<close> cannot be indexed
  by a string and give a \<open>TypeError\<close>.\<close>

fun py_getitem :: "json \<Rightarrow> string \<Rightarrow> py_exn + json" where
  "py_getitem (JObj kvs) k = (case map_of kvs k of None \<Rightarrow> Inl KeyError | Some v \<Rightarrow> Inr v)"
| "py_getitem _ k = Inl TypeError"

text \<open>\<open>d.get(k, default)\<close> on a dictionary.\<close>

definition dict_get :: "(string \<times> json) list \<Rightarrow> string \<Rightarrow> json \<Rightarrow> json" where
  "dict_get kvs k dflt = (case map_of kvs k of None \<Rightarrow> dflt | Some v \<Rightarrow> v)"

section \<open>Python string operations\<close>

definition startswith :: "string \<Rightarrow> string \<Rightarrow> bool" where
  "startswith s p = (take (length p) s = p)"

definition endswith :: "string \<Rightarrow> string \<Rightarrow> bool" where
  "endswith s p = (length p \<le> length s \<and> drop (length s - length p) s = p)"

text \<open>\<open>s[2:-2]\<close>: from index 2 up to, and without, the last two characters; empty when
  the string has fewer than five characters.\<close>

definition slice_2_m2 :: "string \<Rightarrow> string" where
  "slice_2_m2 s = drop 2 (take (length s - 2) s)"

text \<open>\<open>str.isspace\<close> on the code points below 256.\<close>

definition isspace :: "char \<Rightarrow> bool" where
  "isspace c = (let n = (of_char c :: nat) in
     (9 \<le> n \<and> n \<le> 13) \<or> (28 \<le> n \<and> n \<le> 32) \<or> n = 133 \<or> n = 160)"

definition py_strip :: "string \<Rightarrow> string" where
  "py_strip s = rev (dropWhile isspace (rev (dropWhile isspace s)))"

text \<open>\<open>s.split(sep)\<close> for a one-character separator: never an empty list.\<close>

fun py_split :: "char \<Rightarrow> string \<Rightarrow> string list" where
  "py_split sep [] = [[]]"
| "py_split sep (c # cs) =
     (if c = sep then [] # py_split sep cs
      else (case py_split sep cs of
              [] \<Rightarrow> [[c]]
            | p # ps \<Rightarrow> (c # p) # ps))"

section \<open>Reference resolution: \<open>_resolve_inputs\<close>\<close>

text \<open>The loop \<open>for part in parts: current = current[part]\<close>; the first exception
  leaves the loop.\<close>

fun walk :: "json \<Rightarrow> string list \<Rightarrow> py_exn + json" where
  "walk current [] = Inr current"
| "walk current (part # parts) =
     (case py_getitem current part of
        Inl e \<Rightarrow> Inl e
      | Inr nxt \<Rightarrow> walk nxt parts)"

text \<open>\<open>isinstance(value, str) and value.startswith("{{") and value.endswith("}}")\<close>.\<close>

fun is_reference :: "json \<Rightarrow> bool" where
  "is_reference (JStr s) = (startswith s ''{{'' \<and> endswith s ''}}'')"
| "is_reference _ = False"

definition ref_path_of :: "string \<Rightarrow> string" where
  "ref_path_of s = py_strip (slice_2_m2 s)"

text \<open>
  The body of the loop over \<open>inputs.items()\<close> for one value: the resolved value and the
  warnings it logs. Both branches walk with all the \<open>parts\<close>, the first one included;
  the \<open>config\<close> branch starts from the workflow document, the other one from
  \<open>state['data']\<close>. \<open>except (KeyError, TypeError)\<close> catches every exception
  \<open>walk\<close> raises.
\<close>

fun resolve_value :: "json \<Rightarrow> (string \<times> json) list \<Rightarrow> json \<Rightarrow> json \<times> log_record list" where
  "resolve_value workflow_config data (JStr s) =
     (if startswith s ''{{'' \<and> endswith s ''}}'' then
        (let ref_path = ref_path_of s;
             parts = py_split CHR ''.'' ref_path
         in if hd parts = ''config'' then
              (case walk workflow_config parts of
                 Inr current \<Rightarrow> (current, [])
               | Inl e \<Rightarrow>
                   (JNull, [(WARNING, ''Could not resolve config reference: '' @ ref_path)]))
            else
              (case walk (JObj data) parts of
                 Inr current \<Rightarrow> (current, [])
               | Inl e \<Rightarrow> (JNull, [(WARNING, ''Could not resolve reference: '' @ ref_path)])))
      else (JStr s, []))"
| "resolve_value workflow_config data value = (value, [])"

text \<open>The loop, with the dictionary \<open>resolved\<close> and the log as accumulators.\<close>

fun resolve_inputs_loop ::
  "json \<Rightarrow> (string \<times> json) list \<Rightarrow> (string \<times> json) list \<Rightarrow> log_record list \<Rightarrow>
   (string \<times> json) list \<Rightarrow> (string \<times> json) list \<times> log_record list" where
  "resolve_inputs_loop workflow_config data resolved lg [] = (resolved, lg)"
| "resolve_inputs_loop workflow_config data resolved lg ((key, value) # rest) =
     (case resolve_value workflow_config data value of
        (v, warnings) \<Rightarrow>
          resolve_inputs_loop workflow_config data (AList.update key v resolved) (lg @ warnings) rest)"

definition resolve_inputs ::
  "json \<Rightarrow> (string \<times> json) list \<Rightarrow> (string \<times> json) list \<Rightarrow>
   (string \<times> json) list \<times> log_record list" where
  "resolve_inputs workflow_config inputs data = resolve_inputs_loop workflow_config data [] [] inputs"

section \<open>Serialisation: \<open>json.dumps\<close>\<close>

text \<open>
  \<open>json.dumps\<close> with its default arguments: the separators are \<open>", "\<close> and
  \<open>": "\<close>, and \<open>ensure_ascii\<close> escapes every character outside \<open>' '..'~'\<close>, the
  quote and the backslash. The quote is \<open>CHR 0x22\<close>, the backslash \<open>CHR 0x5C\<close>.
\<close>

definition hex_digit :: "nat \<Rightarrow> char" where
  "hex_digit d = (if d < 10 then char_of (48 + d) else char_of (87 + d))"

definition hex4 :: "nat \<Rightarrow> string" where
  "hex4 n = [hex_digit (n div 4096 mod 16), hex_digit (n div 256 mod 16),
             hex_digit (n div 16 mod 16), hex_digit (n mod 16)]"

definition escape_char :: "char \<Rightarrow> string" where
  "escape_char c =
     (if c = CHR 0x22 then [CHR 0x5C, CHR 0x22]
      else if c = CHR 0x5C then [CHR 0x5C, CHR 0x5C]
      else if c = CHR 0x0A then [CHR 0x5C, CHR ''n'']
      else if c = CHR 0x0D then [CHR 0x5C, CHR ''r'']
      else if c = CHR 0x09 then [CHR 0x5C, CHR ''t'']
      else if c = CHR 0x0C then [CHR 0x5C, CHR ''f'']
      else if c = CHR 0x08 then [CHR 0x5C, CHR ''b'']
      else if 32 \<le> (of_char c :: nat) \<and> (of_char c :: nat) \<le> 126 then [c]
      else CHR 0x5C # CHR ''u'' # hex4 (of_char c))"

definition escape_string :: "string \<Rightarrow> string" where
  "escape_string s = concat (map escape_char s)"

definition encode_string :: "string \<Rightarrow> string" where
  "encode_string s = CHR 0x22 # escape_string s @ [CHR 0x22]"

text \<open>The decimal digits of a natural number, and \<open>int.__repr__\<close>.\<close>

function digits_of :: "nat \<Rightarrow> string" where
  "digits_of n = (if n < 10 then [char_of (48 + n)]
                  else digits_of (n div 10) @ [char_of (48 + n mod 10)])"
  by pat_completeness auto
termination
  by (relation "measure id") auto

declare digits_of.simps [simp del]

definition int_repr :: "int \<Rightarrow> string" where
  "int_repr i = (if i < 0 then CHR ''-'' # digits_of (nat (- i)) else digits_of (nat i))"

fun json_dumps :: "json \<Rightarrow> string"
and dumps_items :: "json list \<Rightarrow> string"
and dumps_members :: "(string \<times> json) list \<Rightarrow> string" where
  "json_dumps JNull = ''null''"
| "json_dumps (JBool b) = (if b then ''true'' else ''false'')"
| "json_dumps (JInt i) = int_repr i"
| "json_dumps (JStr s) = encode_string s"
| "json_dumps (JList xs) = ''['' @ dumps_items xs @ '']''"
| "json_dumps (JObj kvs) = ''{'' @ dumps_members kvs @ ''}''"
| "dumps_items [] = []"
| "dumps_items [x] = json_dumps x"
| "dumps_items (x # y # ys) = json_dumps x @ '', '' @ dumps_items (y # ys)"
| "dumps_members [] = []"
| "dumps_members [(k, v)] = encode_string k @ '': '' @ json_dumps v"
| "dumps_members ((k, v) # kv # kvs) =
     encode_string k @ '': '' @ json_dumps v @ '', '' @ dumps_members (kv # kvs)"

section \<open>Deserialisation: \<open>json.loads\<close>\<close>

text \<open>
  The decoder of Python's \<open>json\<close> package in its default (strict) mode, on texts of
  code points below 256. Whitespace is \<open>' '\<close>, \<open>\t\<close>, \<open>\n\<close> and \<open>\r\<close>.
  Every malformed text is a \<open>JSONDecodeError\<close>. Three things the decoder accepts
  are outside the model and give \<open>Unmodelled\<close>: numbers with a fraction or an
  exponent, the literals \<open>NaN\<close>, \<open>Infinity\<close> and \<open>-Infinity\<close>, and \<open>\uXXXX\<close>
  escapes of code points from 256 on.
\<close>

definition is_ws :: "char \<Rightarrow> bool" where
  "is_ws c = (c = CHR '' '' \<or> c = CHR 0x09 \<or> c = CHR 0x0A \<or> c = CHR 0x0D)"

definition skip_ws :: "string \<Rightarrow> string" where
  "skip_ws s = dropWhile is_ws s"

definition is_digit :: "char \<Rightarrow> bool" where
  "is_digit c = (48 \<le> (of_char c :: nat) \<and> (of_char c :: nat) \<le> 57)"

definition digit_val :: "char \<Rightarrow> nat" where
  "digit_val c = of_char c - 48"

definition nat_of_digits :: "string \<Rightarrow> nat" where
  "nat_of_digits ds = foldl (\<lambda>a c. 10 * a + digit_val c) 0 ds"

definition hex_val :: "char \<Rightarrow> nat option" where
  "hex_val c = (let n = (of_char c :: nat) in
     if 48 \<le> n \<and> n \<le> 57 then Some (n - 48)
     else if 97 \<le> n \<and> n \<le> 102 then Some (n - 87)
     else if 65 \<le> n \<and> n \<le> 70 then Some (n - 55)
     else None)"

text \<open>\<open>_decode_uXXXX\<close>: the four characters after \<open>\u\<close> must be hexadecimal digits.\<close>

fun decode_uXXXX :: "string \<Rightarrow> nat option" where
  "decode_uXXXX (a # b # c # d # rest) =
     (case (hex_val a, hex_val b, hex_val c, hex_val d) of
        (Some x, Some y, Some z, Some w) \<Rightarrow> Some (4096 * x + 256 * y + 16 * z + w)
      | _ \<Rightarrow> None)"
| "decode_uXXXX _ = None"

text \<open>The table \<open>BACKSLASH\<close> of the one-character escapes.\<close>

definition backslash :: "char \<Rightarrow> char option" where
  "backslash c =
     (if c = CHR 0x22 then Some (CHR 0x22)
      else if c = CHR 0x5C then Some (CHR 0x5C)
      else if c = CHR ''/'' then Some (CHR ''/'')
      else if c = CHR ''b'' then Some (CHR 0x08)
      else if c = CHR ''f'' then Some (CHR 0x0C)
      else if c = CHR ''n'' then Some (CHR 0x0A)
      else if c = CHR ''r'' then Some (CHR 0x0D)
      else if c = CHR ''t'' then Some (CHR 0x09)
      else None)"

text \<open>
  \<open>scanstring\<close>, called on the text after the opening quote: the decoded string and
  the text after the closing quote. A string that does not end, a control character
  (below \<open>0x20\<close>) and a wrong escape are errors.
\<close>

fun scanstring :: "string \<Rightarrow> py_exn + (string \<times> string)" where
  "scanstring [] = Inl JSONDecodeError"
| "scanstring (c # cs) =
     (if c = CHR 0x22 then Inr ([], cs)
      else if c = CHR 0x5C then
        (case cs of
           [] \<Rightarrow> Inl JSONDecodeError
         | esc # r \<Rightarrow>
             if esc = CHR ''u'' then
               (case decode_uXXXX r of
                  None \<Rightarrow> Inl JSONDecodeError
                | Some uni \<Rightarrow>
                    if uni < 256 then
                      (case scanstring (drop 4 r) of
                         Inl e \<Rightarrow> Inl e
                       | Inr (str, rest) \<Rightarrow> Inr (char_of uni # str, rest))
                    else Inl Unmodelled)
             else
               (case backslash esc of
                  None \<Rightarrow> Inl JSONDecodeError
                | Some ch \<Rightarrow>
                    (case scanstring r of
                       Inl e \<Rightarrow> Inl e
                     | Inr (str, rest) \<Rightarrow> Inr (ch # str, rest))))
      else if (of_char c :: nat) < 32 then Inl JSONDecodeError
      else
        (case scanstring cs of
           Inl e \<Rightarrow> Inl e
         | Inr (str, rest) \<Rightarrow> Inr (c # str, rest)))"

text \<open>
  \<open>NUMBER_RE\<close> is \<open>(-?(?:0|[1-9][0-9]*))(\.[0-9]+)?([eE][-+]?[0-9]+)?\<close>. The integer
  part is a single \<open>0\<close> or a run of digits that starts with a nonzero one; a
  fraction or an exponent after it makes the number a float.
\<close>

definition frac_matches :: "string \<Rightarrow> bool" where
  "frac_matches s = (case s of
       c # d # r \<Rightarrow> c = CHR ''.'' \<and> is_digit d
     | _ \<Rightarrow> False)"

definition exp_matches :: "string \<Rightarrow> bool" where
  "exp_matches s = (case s of
       c # d # r \<Rightarrow>
         (c = CHR ''e'' \<or> c = CHR ''E'') \<and>
         (is_digit d \<or> ((d = CHR ''+'' \<or> d = CHR ''-'') \<and> (case r of [] \<Rightarrow> False | x # _ \<Rightarrow> is_digit x)))
     | _ \<Rightarrow> False)"

text \<open>The integer part after the optional sign: its digits and the text after them.\<close>

definition int_part :: "string \<Rightarrow> (string \<times> string) option" where
  "int_part s = (case s of
       [] \<Rightarrow> None
     | c # cs \<Rightarrow>
         if c = CHR ''0'' then Some ([c], cs)
         else if is_digit c then Some (c # takeWhile is_digit cs, dropWhile is_digit cs)
         else None)"

definition match_number :: "string \<Rightarrow> (py_exn + (json \<times> string)) option" where
  "match_number s =
     (let neg = (case s of [] \<Rightarrow> False | c # _ \<Rightarrow> c = CHR ''-'');
          body = (if neg then tl s else s)
      in case int_part body of
           None \<Rightarrow> None
         | Some (ds, rest) \<Rightarrow>
             if frac_matches rest \<or> exp_matches rest then Some (Inl Unmodelled)
             else Some (Inr (JInt (if neg then - int (nat_of_digits ds) else int (nat_of_digits ds)), rest)))"

text \<open>\<open>dict(pairs)\<close>: a later pair with the same key replaces the value of the earlier one.\<close>

definition dict_of_pairs :: "(string \<times> json) list \<Rightarrow> (string \<times> json) list" where
  "dict_of_pairs pairs = foldl (\<lambda>d (k, v). AList.update k v d) [] pairs"

text \<open>
  \<open>scan_once\<close>, \<open>JSONObject\<close> and \<open>JSONArray\<close>. The first argument bounds the
  number of nested calls; \<open>json_loads\<close> starts with more than the length of the text,
  which no text exhausts, so the \<open>RecursionError\<close> of the equations for \<open>0\<close> is not a
  result of \<open>json_loads\<close>. \<open>parse_object\<close> is called after the opening quote of a
  key, \<open>parse_array\<close> at the first character of an element; both carry the pairs or
  values read so far.
\<close>

fun scan_once :: "nat \<Rightarrow> string \<Rightarrow> py_exn + (json \<times> string)"
and parse_object :: "nat \<Rightarrow> (string \<times> json) list \<Rightarrow> string \<Rightarrow> py_exn + (json \<times> string)"
and parse_array :: "nat \<Rightarrow> json list \<Rightarrow> string \<Rightarrow> py_exn + (json \<times> string)" where
  "scan_once 0 s = Inl RecursionError"
| "scan_once (Suc n) [] = Inl JSONDecodeError"
| "scan_once (Suc n) (c # cs) =
     (if c = CHR 0x22 then
        (case scanstring cs of
           Inl e \<Rightarrow> Inl e
         | Inr (str, rest) \<Rightarrow> Inr (JStr str, rest))
      else if c = CHR ''{'' then
        (case skip_ws cs of
           [] \<Rightarrow> Inl JSONDecodeError
         | d # r \<Rightarrow>
             if d = CHR ''}'' then Inr (JObj [], r)
             else if d = CHR 0x22 then parse_object n [] r
             else Inl JSONDecodeError)
      else if c = CHR ''['' then
        (case skip_ws cs of
           [] \<Rightarrow> Inl JSONDecodeError
         | d # r \<Rightarrow>
             if d = CHR '']'' then Inr (JList [], r)
             else parse_array n [] (d # r))
      else if startswith (c # cs) ''null'' then Inr (JNull, drop 4 (c # cs))
      else if startswith (c # cs) ''true'' then Inr (JBool True, drop 4 (c # cs))
      else if startswith (c # cs) ''false'' then Inr (JBool False, drop 5 (c # cs))
      else
        (case match_number (c # cs) of
           Some r \<Rightarrow> r
         | None \<Rightarrow>
             if startswith (c # cs) ''NaN'' \<or> startswith (c # cs) ''Infinity''
                \<or> startswith (c # cs) ''-Infinity''
             then Inl Unmodelled
             else Inl JSONDecodeError))"
| "parse_object 0 pairs s = Inl RecursionError"
| "parse_object (Suc n) pairs s =
     (case scanstring s of
        Inl e \<Rightarrow> Inl e
      | Inr (key, s1) \<Rightarrow>
          (case skip_ws s1 of
             [] \<Rightarrow> Inl JSONDecodeError
           | c # s2 \<Rightarrow>
               if c \<noteq> CHR '':'' then Inl JSONDecodeError
               else
                 (case scan_once (Suc n) (skip_ws s2) of
                    Inl e \<Rightarrow> Inl e
                  | Inr (value, s3) \<Rightarrow>
                      (case skip_ws s3 of
                         [] \<Rightarrow> Inl JSONDecodeError
                       | d # s4 \<Rightarrow>
                           if d = CHR ''}'' then Inr (JObj (dict_of_pairs (pairs @ [(key, value)])), s4)
                           else if d \<noteq> CHR '','' then Inl JSONDecodeError
                           else
                             (case skip_ws s4 of
                                [] \<Rightarrow> Inl JSONDecodeError
                              | q # s5 \<Rightarrow>
                                  if q = CHR 0x22 then parse_object n (pairs @ [(key, value)]) s5
                                  else Inl JSONDecodeError)))))"
| "parse_array 0 vals s = Inl RecursionError"
| "parse_array (Suc n) vals s =
     (case scan_once (Suc n) s of
        Inl e \<Rightarrow> Inl e
      | Inr (value, s1) \<Rightarrow>
          (case skip_ws s1 of
             [] \<Rightarrow> Inl JSONDecodeError
           | d # s2 \<Rightarrow>
               if d = CHR '']'' then Inr (JList (vals @ [value]), s2)
               else if d \<noteq> CHR '','' then Inl JSONDecodeError
               else parse_array n (vals @ [value]) (skip_ws s2)))"

text \<open>\<open>JSONDecoder.decode\<close>: whitespace around the value, and nothing else after it.\<close>

definition json_loads :: "string \<Rightarrow> py_exn + json" where
  "json_loads s =
     (case scan_once (Suc (length s)) (skip_ws s) of
        Inl e \<Rightarrow> Inl e
      | Inr (obj, rest) \<Rightarrow> if skip_ws rest = [] then Inr obj else Inl JSONDecodeError)"

section \<open>Environment substitution: \<open>_resolve_env_variables\<close>\<close>

text \<open>
  \<open>re.findall\<close> with the pattern \<open>\{\{([A-Z_]+)\}\}\<close>: the matches from left to
  right, none overlapping an earlier one. \<open>match_token\<close> is one attempt at the head of
  the text: the variable name and the text after the match.
\<close>

definition is_var_char :: "char \<Rightarrow> bool" where
  "is_var_char c = (c = CHR ''_'' \<or> (65 \<le> (of_char c :: nat) \<and> (of_char c :: nat) \<le> 90))"

definition match_token :: "string \<Rightarrow> (string \<times> string) option" where
  "match_token s =
     (if startswith s ''{{'' then
        (let var = takeWhile is_var_char (drop 2 s);
             after = dropWhile is_var_char (drop 2 s)
         in if var \<noteq> [] \<and> startswith after ''}}'' then Some (var, drop 2 after) else None)
      else None)"

lemma match_token_shorter:
  "match_token s = Some (var, rest) \<Longrightarrow> length rest < length s"
proof -
  assume m: "match_token s = Some (var, rest)"
  have "length (dropWhile is_var_char (drop 2 s)) \<le> length (drop 2 s)"
    by (rule length_dropWhile_le)
  moreover from m have "rest = drop 2 (dropWhile is_var_char (drop 2 s))"
    and "takeWhile is_var_char (drop 2 s) \<noteq> []"
    by (auto simp: match_token_def Let_def split: if_splits)
  moreover then have "drop 2 s \<noteq> []" by auto
  ultimately show ?thesis by auto
qed

function findall_tokens :: "string \<Rightarrow> string list" where
  "findall_tokens [] = []"
| "findall_tokens (c # cs) =
     (case match_token (c # cs) of
        Some (var, rest) \<Rightarrow> var # findall_tokens rest
      | None \<Rightarrow> findall_tokens cs)"
  by pat_completeness auto
termination
  by (relation "measure length") (auto dest: match_token_shorter)

text \<open>\<open>str.replace(old, new)\<close>: every occurrence of \<open>old\<close> from left to right, none
  overlapping an earlier one; an empty \<open>old\<close> matches before every character and at
  the end.\<close>

function str_replace :: "string \<Rightarrow> string \<Rightarrow> string \<Rightarrow> string" where
  "str_replace old new [] = (if old = [] then new else [])"
| "str_replace old new (c # cs) =
     (if old = [] then new @ c # str_replace old new cs
      else if startswith (c # cs) old then new @ str_replace old new (drop (length old) (c # cs))
      else c # str_replace old new cs)"
  by pat_completeness auto
termination
  by (relation "measure (\<lambda>(old, new, s). length s)") auto

declare str_replace.simps(2) [simp del]

text \<open>\<open>os.getenv(var, f"MISSING_{var}")\<close>.\<close>

definition env_value :: "(string \<Rightarrow> string option) \<Rightarrow> string \<Rightarrow> string" where
  "env_value env var = (case env var of None \<Rightarrow> ''MISSING_'' @ var | Some v \<Rightarrow> v)"

text \<open>One round of the loop: \<open>config_str.replace(f"{{{{{var}}}}}", env_value)\<close>.\<close>

definition substitute :: "(string \<Rightarrow> string option) \<Rightarrow> string \<Rightarrow> string \<Rightarrow> string" where
  "substitute env config_str var = str_replace (''{{'' @ var @ ''}}'') (env_value env var) config_str"

definition resolve_env_variables :: "(string \<Rightarrow> string option) \<Rightarrow> json \<Rightarrow> py_exn + json" where
  "resolve_env_variables env config =
     (let config_str = json_dumps config;
          matches = findall_tokens config_str
      in json_loads (foldl (substitute env) config_str matches))"

section \<open>The builder, its collaborators and the execution state\<close>

text \<open>
  A handler instance is an object of a class of the \<open>agents\<close> package: the name it was
  constructed with and the reasoning history it accumulates. The instances live in
  the dictionary \<open>self.agents\<close>; a call of \<open>execute\<close> may change the instance, and
  the changed instance is the one the dictionary holds afterwards.
\<close>

record agent =
  agent_class :: string
  agent_name :: string
  reasoning_history :: "json list"

text \<open>
  What \<open>__import__\<close>, \<open>getattr\<close> and the constructor call of \<open>_load_agent\<close> do for
  a handler name: the constructed instance, an \<open>ImportError\<close> or an
  \<open>AttributeError\<close> with its message, or another exception.
\<close>

datatype import_result =
    Constructed agent
  | ImportErrorRaised string
  | AttributeErrorRaised string
  | OtherRaised

text \<open>A call of \<open>agent.execute\<close> returns a result or raises an \<open>Exception\<close>, of which
  the engine uses \<open>str(e)\<close>.\<close>

datatype handler_outcome = Returned json | Raised string

text \<open>
  The collaborators of the engine: the process environment, the \<open>agents\<close> package,
  the behaviour of the handlers, the checks of the graph library on a node name, its
  bound on the number of steps of one run, and the content of the workflow file
  (\<open>None\<close> when there is no file). A handler gets the resolved inputs, the
  instructions and the resolved tools, and does not change these arguments.
\<close>

record world =
  getenv :: "string \<Rightarrow> string option"
  import_agent :: "string \<Rightarrow> import_result"
  agent_execute :: "agent \<Rightarrow> (string \<times> json) list \<Rightarrow> json \<Rightarrow> json \<Rightarrow> handler_outcome \<times> agent"
  valid_node_name :: "string \<Rightarrow> bool"
  recursion_limit :: nat
  workflow_file :: "string option"

text \<open>\<open>WorkflowState\<close>.\<close>

record workflow_state =
  workflow_name :: json
  current_step :: string
  data :: "(string \<times> json) list"
  errors :: "string list"
  history :: "json list"

text \<open>
  The graph of the library, as far as \<open>build_graph\<close> uses it: each node with the step
  configuration its node function closes over, the edges, and the entry point.
\<close>

datatype target = Node string | END

record state_graph =
  nodes :: "(string \<times> json) list"
  edges :: "(string \<times> target) list"
  entry_point :: "string option"

text \<open>\<open>LangGraphBuilder\<close>: \<open>workflow_config\<close> and \<open>graph\<close> are \<open>None\<close> at first
  (\<open>JNull\<close>, \<open>None\<close>), \<open>agents\<close> is empty; \<open>logged\<close> is what the logger has
  received.\<close>

record builder =
  workflow_config :: json
  graph :: "state_graph option"
  agents :: "(string \<times> agent) list"
  logged :: "log_record list"

definition new_builder :: builder where
  "new_builder = \<lparr>workflow_config = JNull, graph = None, agents = [], logged = []\<rparr>"

section \<open>Loading and validating the workflow\<close>

text \<open>Truth value of a Python value, and \<open>key in value\<close> for a string \<open>key\<close>.\<close>

fun py_truthy :: "json \<Rightarrow> bool" where
  "py_truthy JNull = False"
| "py_truthy (JBool b) = b"
| "py_truthy (JInt i) = (i \<noteq> 0)"
| "py_truthy (JStr s) = (s \<noteq> [])"
| "py_truthy (JList xs) = (xs \<noteq> [])"
| "py_truthy (JObj kvs) = (kvs \<noteq> [])"

fun has_substring :: "string \<Rightarrow> string \<Rightarrow> bool" where
  "has_substring [] p = (p = [])"
| "has_substring (c # cs) p = (startswith (c # cs) p \<or> has_substring cs p)"

fun py_contains :: "json \<Rightarrow> string \<Rightarrow> py_exn + bool" where
  "py_contains (JObj kvs) key = Inr (map_of kvs key \<noteq> None)"
| "py_contains (JList xs) key = Inr (JStr key \<in> set xs)"
| "py_contains (JStr s) key = Inr (has_substring s key)"
| "py_contains _ key = Inl TypeError"

text \<open>\<open>str(value)\<close> in an f-string, for the values whose text does not depend on
  \<open>repr\<close>.\<close>

fun py_str :: "json \<Rightarrow> py_exn + string" where
  "py_str (JStr s) = Inr s"
| "py_str JNull = Inr ''None''"
| "py_str (JBool b) = Inr (if b then ''True'' else ''False'')"
| "py_str (JInt i) = Inr (int_repr i)"
| "py_str _ = Inl Unmodelled"

fun missing_required_key :: "json \<Rightarrow> string list \<Rightarrow> py_exn + bool" where
  "missing_required_key cfg [] = Inr False"
| "missing_required_key cfg (key # keys) =
     (case py_contains cfg key of
        Inl e \<Rightarrow> Inl e
      | Inr present \<Rightarrow> if \<not> present then Inr True else missing_required_key cfg keys)"

definition validate_workflow :: "json \<Rightarrow> py_exn + log_record list" where
  "validate_workflow cfg =
     (case missing_required_key cfg [''workflow_name'', ''steps''] of
        Inl e \<Rightarrow> Inl e
      | Inr True \<Rightarrow> Inl ValueError
      | Inr False \<Rightarrow>
          (case py_getitem cfg ''steps'' of
             Inl e \<Rightarrow> Inl e
           | Inr steps \<Rightarrow>
               if \<not> py_truthy steps then Inl ValueError
               else Inr [(INFO, ''Workflow validation passed'')]))"

text \<open>\<open>load_workflow\<close>; an exception leaves the builder behind, the model returns the
  exception alone.\<close>

definition load_workflow :: "world \<Rightarrow> builder \<Rightarrow> py_exn + builder" where
  "load_workflow w b =
     (case workflow_file w of
        None \<Rightarrow> Inl FileNotFoundError
      | Some content \<Rightarrow>
          (case json_loads content of
             Inl e \<Rightarrow> Inl e
           | Inr cfg \<Rightarrow>
               (case cfg of
                  JObj kvs \<Rightarrow>
                    (case py_str (dict_get kvs ''workflow_name'' JNull) of
                       Inl e \<Rightarrow> Inl e
                     | Inr name \<Rightarrow>
                         (case validate_workflow cfg of
                            Inl e \<Rightarrow> Inl e
                          | Inr lg \<Rightarrow>
                              Inr (b\<lparr>workflow_config := cfg,
                                     logged := logged b @ (INFO, ''Loaded workflow: '' @ name) # lg\<rparr>)))
                | _ \<Rightarrow> Inl AttributeError)))"

section \<open>Handler registry: \<open>_load_agent\<close>\<close>

definition load_agent :: "world \<Rightarrow> string \<Rightarrow> py_exn + (agent \<times> log_record list)" where
  "load_agent w name =
     (case import_agent w name of
        Constructed a \<Rightarrow> Inr (a, [])
      | ImportErrorRaised msg \<Rightarrow>
          Inr (\<lparr>agent_class = ''BaseAgent'', agent_name = name, reasoning_history = []\<rparr>,
               [(ERROR, ''Failed to load agent '' @ name @ '': '' @ msg)])
      | AttributeErrorRaised msg \<Rightarrow>
          Inr (\<lparr>agent_class = ''BaseAgent'', agent_name = name, reasoning_history = []\<rparr>,
               [(ERROR, ''Failed to load agent '' @ name @ '': '' @ msg)])
      | OtherRaised \<Rightarrow> Inl OtherException)"

text \<open>\<open>if agent_name not in self.agents: self.agents[agent_name] = self._load_agent(agent_name)\<close>.\<close>

definition ensure_agent :: "world \<Rightarrow> string \<Rightarrow> builder \<Rightarrow> py_exn + builder" where
  "ensure_agent w name b =
     (if map_of (agents b) name = None then
        (case load_agent w name of
           Inl e \<Rightarrow> Inl e
         | Inr (a, lg) \<Rightarrow>
             Inr (b\<lparr>agents := AList.update name a (agents b), logged := logged b @ lg\<rparr>))
      else Inr b)"

section \<open>The node function of a step\<close>

text \<open>\<open>step_config['id']\<close> and \<open>step_config['agent']\<close>; the model follows string
  values only.\<close>

definition get_string :: "json \<Rightarrow> string \<Rightarrow> py_exn + string" where
  "get_string d key =
     (case py_getitem d key of
        Inl e \<Rightarrow> Inl e
      | Inr (JStr s) \<Rightarrow> Inr s
      | Inr _ \<Rightarrow> Inl Unmodelled)"

text \<open>\<open>step_config.get(key, default)\<close>.\<close>

fun step_get :: "json \<Rightarrow> string \<Rightarrow> json \<Rightarrow> py_exn + json" where
  "step_get (JObj kvs) key dflt = Inr (dict_get kvs key dflt)"
| "step_get _ key dflt = Inl AttributeError"

text \<open>\<open>inputs.items()\<close> needs a dictionary.\<close>

fun py_items :: "json \<Rightarrow> py_exn + (string \<times> json) list" where
  "py_items (JObj kvs) = Inr kvs"
| "py_items _ = Inl AttributeError"

text \<open>
  The \<open>try\<close> block evaluates \<open>tools_config['tools']\<close> and calls the handler; a
  \<open>KeyError\<close> of the former is caught like an exception of the handler, with
  \<open>str(e)\<close> the \<open>repr\<close> of the key. The text of a \<open>TypeError\<close> is not modelled.
\<close>

definition call_handler ::
  "world \<Rightarrow> agent \<Rightarrow> (string \<times> json) list \<Rightarrow> json \<Rightarrow> json \<Rightarrow> py_exn + (handler_outcome \<times> agent)" where
  "call_handler w a inputs instructions tools_config =
     (case py_getitem tools_config ''tools'' of
        Inr tools \<Rightarrow> Inr (agent_execute w a inputs instructions tools)
      | Inl KeyError \<Rightarrow> Inr (Raised (CHR 0x27 # ''tools'' @ [CHR 0x27]), a)
      | Inl e \<Rightarrow> Inl Unmodelled)"

text \<open>The two ways out of the \<open>try\<close> statement.\<close>

definition history_record :: "string \<Rightarrow> string \<Rightarrow> (string \<times> json) list \<Rightarrow> json \<Rightarrow> json" where
  "history_record step_id name inputs result =
     JObj [(''step'', JStr step_id), (''agent'', JStr name), (''inputs'', JObj inputs), (''output'', result)]"

fun record_outcome ::
  "string \<Rightarrow> string \<Rightarrow> (string \<times> json) list \<Rightarrow> handler_outcome \<Rightarrow> builder \<times> workflow_state \<Rightarrow>
   builder \<times> workflow_state" where
  "record_outcome step_id name inputs (Returned result) (b, st) =
     (b\<lparr>logged := logged b @ [(INFO, ''Node '' @ step_id @ '' completed successfully'')]\<rparr>,
      st\<lparr>data := AList.update step_id (JObj [(''output'', result)]) (data st),
         current_step := step_id,
         history := history st @ [history_record step_id name inputs result]\<rparr>)"
| "record_outcome step_id name inputs (Raised msg) (b, st) =
     (b\<lparr>logged := logged b @ [(ERROR, ''Error in node '' @ step_id @ '': '' @ msg)]\<rparr>,
      st\<lparr>errors := errors st @ [step_id @ '': '' @ msg]\<rparr>)"

text \<open>
  Everything \<open>node_function\<close> does up to and with the call of the handler: the step
  id, the handler name, the resolved inputs, the outcome of the call, and the builder
  with the handler instance as the call left it. Only the last two steps are inside
  the \<open>try\<close>; an exception of an earlier one leaves the node function.
\<close>

record step_call =
  call_step_id :: string
  call_agent_name :: string
  call_inputs :: "(string \<times> json) list"
  call_outcome :: handler_outcome
  call_builder :: builder

definition run_handler :: "world \<Rightarrow> json \<Rightarrow> builder \<times> workflow_state \<Rightarrow> py_exn + step_call" where
  "run_handler w step_config bs =
     (case get_string step_config ''id'' of
        Inl e \<Rightarrow> Inl e
      | Inr step_id \<Rightarrow>
     (case get_string step_config ''agent'' of
        Inl e \<Rightarrow> Inl e
      | Inr name \<Rightarrow>
     (case ensure_agent w name
             ((fst bs)\<lparr>logged := logged (fst bs) @
                  [(INFO, ''Executing node: '' @ step_id @ '' ('' @ name @ '')'')]\<rparr>) of
        Inl e \<Rightarrow> Inl e
      | Inr b1 \<Rightarrow>
     (case map_of (agents b1) name of
        None \<Rightarrow> Inl KeyError
      | Some a \<Rightarrow>
     (case step_get step_config ''inputs'' (JObj []) of
        Inl e \<Rightarrow> Inl e
      | Inr declared \<Rightarrow>
     (case py_items declared of
        Inl e \<Rightarrow> Inl e
      | Inr items \<Rightarrow>
     (case resolve_inputs (workflow_config b1) items (data (snd bs)) of
        (inputs, warnings) \<Rightarrow>
     (case step_get step_config ''tools'' (JList []) of
        Inl e \<Rightarrow> Inl e
      | Inr tools \<Rightarrow>
     (case resolve_env_variables (getenv w) (JObj [(''tools'', tools)]) of
        Inl e \<Rightarrow> Inl e
      | Inr tools_config \<Rightarrow>
     (case step_get step_config ''instructions'' (JStr []) of
        Inl e \<Rightarrow> Inl e
      | Inr instructions \<Rightarrow>
     (case call_handler w a inputs instructions tools_config of
        Inl e \<Rightarrow> Inl e
      | Inr (outcome, a') \<Rightarrow>
          Inr \<lparr>call_step_id = step_id, call_agent_name = name, call_inputs = inputs,
               call_outcome = outcome,
               call_builder = b1\<lparr>agents := AList.update name a' (agents b1),
                                 logged := logged b1 @ warnings\<rparr>\<rparr>)))))))))))"

definition node_function ::
  "world \<Rightarrow> json \<Rightarrow> builder \<times> workflow_state \<Rightarrow> py_exn + (builder \<times> workflow_state)" where
  "node_function w step_config bs =
     (case run_handler w step_config bs of
        Inl e \<Rightarrow> Inl e
      | Inr c \<Rightarrow>
          Inr (record_outcome (call_step_id c) (call_agent_name c) (call_inputs c) (call_outcome c)
                 (call_builder c, snd bs)))"

section \<open>Building the graph: \<open>build_graph\<close>\<close>

text \<open>
  The operations of the graph library. \<open>add_node\<close> refuses a name that is already a
  node and a name the library reserves; \<open>add_edge\<close> and \<open>set_entry_point\<close> record
  what they are given.
\<close>

definition empty_graph :: state_graph where
  "empty_graph = \<lparr>nodes = [], edges = [], entry_point = None\<rparr>"

definition add_node :: "world \<Rightarrow> string \<Rightarrow> json \<Rightarrow> state_graph \<Rightarrow> py_exn + state_graph" where
  "add_node w name step_config g =
     (if map_of (nodes g) name \<noteq> None \<or> \<not> valid_node_name w name then Inl ValueError
      else Inr (g\<lparr>nodes := nodes g @ [(name, step_config)]\<rparr>))"

definition add_edge :: "string \<Rightarrow> target \<Rightarrow> state_graph \<Rightarrow> state_graph" where
  "add_edge start_key end_key g = g\<lparr>edges := edges g @ [(start_key, end_key)]\<rparr>"

definition set_entry_point :: "string \<Rightarrow> state_graph \<Rightarrow> state_graph" where
  "set_entry_point key g = g\<lparr>entry_point := Some key\<rparr>"

text \<open>\<open>for step in steps: workflow.add_node(step['id'], self._create_node_function(step))\<close>.\<close>

fun add_nodes :: "world \<Rightarrow> json list \<Rightarrow> state_graph \<Rightarrow> py_exn + state_graph" where
  "add_nodes w [] g = Inr g"
| "add_nodes w (step # steps) g =
     (case get_string step ''id'' of
        Inl e \<Rightarrow> Inl e
      | Inr name \<Rightarrow>
          (case add_node w name step g of
             Inl e \<Rightarrow> Inl e
           | Inr g' \<Rightarrow> add_nodes w steps g'))"

text \<open>\<open>for i in range(len(steps) - 1): workflow.add_edge(steps[i]['id'], steps[i+1]['id'])\<close>.\<close>

fun add_edges :: "json list \<Rightarrow> state_graph \<Rightarrow> py_exn + state_graph" where
  "add_edges (step # nxt # steps) g =
     (case get_string step ''id'' of
        Inl e \<Rightarrow> Inl e
      | Inr a \<Rightarrow>
          (case get_string nxt ''id'' of
             Inl e \<Rightarrow> Inl e
           | Inr b \<Rightarrow> add_edges (nxt # steps) (add_edge a (Node b) g)))"
| "add_edges steps g = Inr g"

text \<open>
  \<open>build_graph\<close>. A \<open>steps\<close> value that is not a list cannot be iterated into step
  dictionaries (\<open>TypeError\<close>); of an empty list, \<open>steps[0]\<close> is an \<open>IndexError\<close>.
\<close>

definition build_graph :: "world \<Rightarrow> builder \<Rightarrow> py_exn + builder" where
  "build_graph w b =
     (case (if \<not> py_truthy (workflow_config b) then load_workflow w b else Inr b) of
        Inl e \<Rightarrow> Inl e
      | Inr b1 \<Rightarrow>
          (case py_getitem (workflow_config b1) ''steps'' of
             Inl e \<Rightarrow> Inl e
           | Inr (JList steps) \<Rightarrow>
               (case add_nodes w steps empty_graph of
                  Inl e \<Rightarrow> Inl e
                | Inr g1 \<Rightarrow>
                    (case add_edges steps g1 of
                       Inl e \<Rightarrow> Inl e
                     | Inr g2 \<Rightarrow>
                         (case steps of
                            [] \<Rightarrow> Inl IndexError
                          | first # _ \<Rightarrow>
                              (case get_string first ''id'' of
                                 Inl e \<Rightarrow> Inl e
                               | Inr entry \<Rightarrow>
                                   (case get_string (last steps) ''id'' of
                                      Inl e \<Rightarrow> Inl e
                                    | Inr finish \<Rightarrow>
                                        Inr (b1\<lparr>graph := Some (add_edge finish END (set_entry_point entry g2)),
                                                logged := logged b1 @ [(INFO, ''LangGraph built successfully'')]\<rparr>))))))
           | Inr _ \<Rightarrow> Inl TypeError))"

section \<open>Running the graph: \<open>invoke\<close> and \<open>execute\<close>\<close>

text \<open>
  A run of the compiled graph from a node: the node function of the node, then the
  target of the one edge that leaves it, until \<open>END\<close>. The first argument is the
  number of node executions the library still allows; a run that needs more ends
  with \<open>GraphRecursionError\<close>. Nodes with no or several outgoing edges do not occur in
  the graphs \<open>build_graph\<close> makes and are not modelled.
\<close>

definition successors :: "state_graph \<Rightarrow> string \<Rightarrow> target list" where
  "successors g name = map snd (filter (\<lambda>e. fst e = name) (edges g))"

fun run_from ::
  "world \<Rightarrow> state_graph \<Rightarrow> nat \<Rightarrow> target \<Rightarrow> builder \<times> workflow_state \<Rightarrow>
   py_exn + (builder \<times> workflow_state)" where
  "run_from w g limit END bs = Inr bs"
| "run_from w g 0 (Node name) bs = Inl GraphRecursionError"
| "run_from w g (Suc limit) (Node name) bs =
     (case map_of (nodes g) name of
        None \<Rightarrow> Inl Unmodelled
      | Some step_config \<Rightarrow>
          (case node_function w step_config bs of
             Inl e \<Rightarrow> Inl e
           | Inr bs' \<Rightarrow>
               (case successors g name of
                  [t] \<Rightarrow> run_from w g limit t bs'
                | _ \<Rightarrow> Inl Unmodelled)))"

definition invoke ::
  "world \<Rightarrow> state_graph \<Rightarrow> builder \<times> workflow_state \<Rightarrow> py_exn + (builder \<times> workflow_state)" where
  "invoke w g bs =
     (case entry_point g of
        None \<Rightarrow> Inl ValueError
      | Some entry \<Rightarrow> run_from w g (recursion_limit w) (Node entry) bs)"

text \<open>The dictionary \<open>execute\<close> returns.\<close>

record run_result =
  success :: bool
  result_data :: "(string \<times> json) list"
  result_errors :: "string list"
  result_history :: "json list"

text \<open>\<open>initial_data or {}\<close>.\<close>

definition initial_state :: "json \<Rightarrow> (string \<times> json) list option \<Rightarrow> workflow_state" where
  "initial_state name initial_data =
     \<lparr>workflow_name = name, current_step = [],
      data = (case initial_data of None \<Rightarrow> [] | Some d \<Rightarrow> d),
      errors = [], history = []\<rparr>"

definition execute ::
  "world \<Rightarrow> builder \<Rightarrow> (string \<times> json) list option \<Rightarrow> py_exn + (builder \<times> run_result)" where
  "execute w b initial_data =
     (case (if graph b = None then build_graph w b else Inr b) of
        Inl e \<Rightarrow> Inl e
      | Inr b1 \<Rightarrow>
          (case graph b1 of
             None \<Rightarrow> Inl AttributeError
           | Some g \<Rightarrow>
               (case py_getitem (workflow_config b1) ''workflow_name'' of
                  Inl e \<Rightarrow> Inl e
                | Inr name \<Rightarrow>
                    (case py_str name of
                       Inl e \<Rightarrow> Inl e
                     | Inr name_text \<Rightarrow>
                         (case invoke w g
                                 (b1\<lparr>logged := logged b1 @
                                       [(INFO, ''Starting workflow execution: '' @ name_text)]\<rparr>,
                                  initial_state name initial_data) of
                            Inl e \<Rightarrow> Inl e
                          | Inr (b2, final_state) \<Rightarrow>
                              Inr (b2\<lparr>logged := logged b2 @ [(INFO, ''Workflow execution completed'')]\<rparr>,
                                   \<lparr>success = (length (errors final_state) = 0),
                                    result_data = data final_state,
                                    result_errors = errors final_state,
                                    result_history = history final_state\<rparr>))))))"

section \<open>Properties of reference resolution\<close>

lemma py_split_nonempty: "py_split sep s \<noteq> []"
  by (induction s) (auto split: list.splits)

text \<open>The walk raises nothing but the two exceptions its \<open>except\<close> clause names.\<close>

lemma walk_raises: "walk current parts = Inl e \<Longrightarrow> e = KeyError \<or> e = TypeError"
proof (induction parts arbitrary: current)
  case Nil
  then show ?case by simp
next
  case (Cons part parts)
  show ?case
  proof (cases "py_getitem current part")
    case (Inl e')
    then have "e' = KeyError \<or> e' = TypeError"
      by (cases current) (auto split: option.splits)
    with Inl Cons.prems show ?thesis by simp
  next
    case (Inr nxt)
    with Cons.prems have "walk nxt parts = Inl e" by simp
    then show ?thesis by (rule Cons.IH)
  qed
qed

lemma update_fresh: "k \<notin> fst ` set al \<Longrightarrow> AList.update k v al = al @ [(k, v)]"
  by (induction al) auto

lemma resolve_inputs_loop_distinct:
  "distinct (map fst inputs) \<Longrightarrow> fst ` set inputs \<inter> fst ` set resolved = {} \<Longrightarrow>
   resolve_inputs_loop cfg sd resolved lg inputs =
     (resolved @ map (\<lambda>(k, v). (k, fst (resolve_value cfg sd v))) inputs,
      lg @ concat (map (\<lambda>(k, v). snd (resolve_value cfg sd v)) inputs))"
proof (induction inputs arbitrary: resolved lg)
  case Nil
  then show ?case by simp
next
  case (Cons kv inputs)
  obtain k v where kv: "kv = (k, v)" by (cases kv)
  obtain x w where r: "resolve_value cfg sd v = (x, w)" by (cases "resolve_value cfg sd v")
  have fresh: "k \<notin> fst ` set resolved" using Cons.prems kv by auto
  have d: "distinct (map fst inputs)" using Cons.prems by simp
  have disj: "fst ` set inputs \<inter> fst ` set (resolved @ [(k, x)]) = {}"
    using Cons.prems kv by auto
  show ?case
    using Cons.IH [OF d disj, of "lg @ w"] kv r update_fresh [OF fresh, of x]
    by simp
qed

text \<open>On a dictionary (distinct keys) the loop resolves every value on its own.\<close>

lemma resolve_inputs_distinct:
  "distinct (map fst inputs) \<Longrightarrow>
   resolve_inputs cfg inputs sd =
     (map (\<lambda>(k, v). (k, fst (resolve_value cfg sd v))) inputs,
      concat (map (\<lambda>(k, v). snd (resolve_value cfg sd v)) inputs))"
  unfolding resolve_inputs_def
  using resolve_inputs_loop_distinct [of inputs "[]" cfg sd "[]"] by simp

lemma map_fst_resolved: "map fst (map (\<lambda>(k, v). (k, f v)) inputs) = map fst inputs"
  by (induction inputs) auto

lemma resolved_keys:
  "distinct (map fst inputs) \<Longrightarrow> map fst (fst (resolve_inputs cfg inputs sd)) = map fst inputs"
  by (simp add: resolve_inputs_distinct map_fst_resolved del: map_map)

lemma resolved_lookup:
  assumes "distinct (map fst inputs)" and "(k, v) \<in> set inputs"
  shows "map_of (fst (resolve_inputs cfg inputs sd)) k = Some (fst (resolve_value cfg sd v))"
proof -
  let ?r = "map (\<lambda>(k, v). (k, fst (resolve_value cfg sd v))) inputs"
  have "map fst ?r = map fst inputs" by (rule map_fst_resolved)
  with assms(1) have "distinct (map fst ?r)" by (simp del: map_map)
  moreover from assms(2) have "(k, fst (resolve_value cfg sd v)) \<in> set ?r" by force
  ultimately have "map_of ?r k = Some (fst (resolve_value cfg sd v))" by simp
  with assms(1) show ?thesis by (simp add: resolve_inputs_distinct)
qed

lemma resolved_warnings:
  assumes "distinct (map fst inputs)" and "(k, v) \<in> set inputs"
  shows "set (snd (resolve_value cfg sd v)) \<subseteq> set (snd (resolve_inputs cfg inputs sd))"
  using assms by (force simp: resolve_inputs_distinct)

text \<open>The path of a reference string, split at the dots.\<close>

definition ref_parts :: "string \<Rightarrow> string list" where
  "ref_parts s = py_split CHR ''.'' (ref_path_of s)"

text \<open>Two workflow documents that pass \<open>_validate_workflow\<close>: one with the two
  required keys only, one with a \<open>config\<close> section beside them.\<close>

definition bare_workflow :: json where
  "bare_workflow = JObj [(''workflow_name'', JStr ''W''),
     (''steps'', JList [JObj [(''id'', JStr ''a''), (''agent'', JStr ''A'')]])]"

definition sectioned_workflow :: json where
  "sectioned_workflow = JObj [(''workflow_name'', JStr ''W''),
     (''config'', JObj [(''workflow_name'', JStr ''X''), (''scoring'', JObj [(''min'', JInt 5)])]),
     (''steps'', JList [JObj [(''id'', JStr ''a''), (''agent'', JStr ''A'')]])]"

text \<open>
  Claim C1, as amended. A reference whose first path segment is \<open>config\<close> is resolved
  by walking the workflow document with the whole path, the segment \<open>config\<close>
  included, and the execution state plays no part: the input gets the value the walk
  reaches, and \<open>None\<close> when the walk fails. So \<open>{{config.workflow_name}}\<close> is the
  entry \<open>workflow_name\<close> of the document's \<open>config\<close> section.
\<close>

theorem config_reference_walks_whole_path:
  assumes "distinct (map fst inputs)" and "(key, JStr s) \<in> set inputs"
    and "is_reference (JStr s)" and "hd (ref_parts s) = ''config''"
  shows "map_of (fst (resolve_inputs cfg inputs sd)) key
           = Some (case walk cfg (ref_parts s) of Inr v \<Rightarrow> v | Inl e \<Rightarrow> JNull)
       \<and> map_of (fst (resolve_inputs cfg inputs sd)) key
           = map_of (fst (resolve_inputs cfg inputs sd')) key"
proof -
  have "fst (resolve_value cfg d (JStr s))
          = (case walk cfg (ref_parts s) of Inr v \<Rightarrow> v | Inl e \<Rightarrow> JNull)" for d
    using assms(3,4) by (auto simp: ref_parts_def Let_def split: sum.splits)
  with resolved_lookup [OF assms(1,2), of cfg sd] resolved_lookup [OF assms(1,2), of cfg sd']
  show ?thesis by simp
qed

theorem config_reference_walks_whole_path_witness:
  "is_reference (JStr ''{{config.workflow_name}}'')
   \<and> ref_parts ''{{config.workflow_name}}'' = [''config'', ''workflow_name'']
   \<and> map_of (fst (resolve_inputs sectioned_workflow [(''n'', JStr ''{{config.workflow_name}}'')] []))
        ''n'' = Some (JStr ''X'')
   \<and> map_of (fst (resolve_inputs sectioned_workflow [(''n'', JStr ''{{config.workflow_name}}'')] []))
        ''n''
      = map_of (fst (resolve_inputs sectioned_workflow [(''n'', JStr ''{{config.workflow_name}}'')]
                  [(''config'', JObj [(''workflow_name'', JStr ''Y'')])])) ''n''"
proof -
  let ?inputs = "[(''n'', JStr ''{{config.workflow_name}}'')]"
  have h1: "distinct (map fst ?inputs)" by simp
  have h2: "(''n'', JStr ''{{config.workflow_name}}'') \<in> set ?inputs" by simp
  have h3: "is_reference (JStr ''{{config.workflow_name}}'')" by code_simp
  have p: "ref_parts ''{{config.workflow_name}}'' = [''config'', ''workflow_name'']" by code_simp
  have h4: "hd (ref_parts ''{{config.workflow_name}}'') = ''config''" by (simp add: p)
  have w: "walk sectioned_workflow [''config'', ''workflow_name''] = Inr (JStr ''X'')"
    by (simp add: sectioned_workflow_def)
  note c = config_reference_walks_whole_path [OF h1 h2 h3 h4, of sectioned_workflow "[]"
         "[(''config'', JObj [(''workflow_name'', JStr ''Y'')])]"]
  from c [unfolded p w]
  have c1: "map_of (fst (resolve_inputs sectioned_workflow ?inputs [])) ''n'' = Some (JStr ''X'')"
    by simp
  from c have c2: "map_of (fst (resolve_inputs sectioned_workflow ?inputs [])) ''n''
      = map_of (fst (resolve_inputs sectioned_workflow ?inputs
                  [(''config'', JObj [(''workflow_name'', JStr ''Y'')])])) ''n''"
    by (rule conjunct2)
  from h3 p c1 c2 show ?thesis by blast
qed

text \<open>
  Claim C1 as stated fails. In a valid document without a \<open>config\<close> section the
  reference \<open>{{config.workflow_name}}\<close> resolves to \<open>None\<close> and not to the name
  \<open>W\<close>; in a document with one, it resolves to the entry of that section, which the
  walk with the remaining segment \<open>workflow_name\<close> alone would not reach.
\<close>

theorem config_workflow_name_counterexample:
  "validate_workflow bare_workflow = Inr [(INFO, ''Workflow validation passed'')]
   \<and> py_getitem bare_workflow ''workflow_name'' = Inr (JStr ''W'')
   \<and> fst (resolve_inputs bare_workflow [(''n'', JStr ''{{config.workflow_name}}'')] [])
       = [(''n'', JNull)]
   \<and> walk sectioned_workflow [''workflow_name''] = Inr (JStr ''W'')
   \<and> fst (resolve_inputs sectioned_workflow [(''n'', JStr ''{{config.workflow_name}}'')] [])
       = [(''n'', JStr ''X'')]"
  by code_simp

text \<open>
  Claim C6. An input value that is not a string of the shape \<open>{{...}}\<close> is passed
  through unchanged and logs nothing, whatever it contains: resolution looks at the
  top-level value only, so a list or a dictionary keeps the reference-like strings
  inside it.
\<close>

theorem literal_input_passes_through:
  assumes "distinct (map fst inputs)" and "(key, val) \<in> set inputs" and "\<not> is_reference val"
  shows "map_of (fst (resolve_inputs cfg inputs sd)) key = Some val
       \<and> resolve_value cfg sd val = (val, [])"
proof -
  from assms(3) have r: "resolve_value cfg sd val = (val, [])"
    by (cases val) auto
  with resolved_lookup [OF assms(1) assms(2), of cfg sd] show ?thesis by simp
qed

theorem literal_input_passes_through_witness:
  "map_of (fst (resolve_inputs bare_workflow
       [(''k'', JList [JStr ''{{a.b}}'', JObj [(''x'', JStr ''{{a.b}}'')]]), (''m'', JStr ''{{a.b}}'')]
       [(''a'', JObj [(''b'', JInt 3)])])) ''k''
     = Some (JList [JStr ''{{a.b}}'', JObj [(''x'', JStr ''{{a.b}}'')]])
   \<and> resolve_value bare_workflow [(''a'', JObj [(''b'', JInt 3)])] (JList [JStr ''{{a.b}}'', JObj [(''x'', JStr ''{{a.b}}'')]])
     = (JList [JStr ''{{a.b}}'', JObj [(''x'', JStr ''{{a.b}}'')]], [])"
  using literal_input_passes_through [of
     "[(''k'', JList [JStr ''{{a.b}}'', JObj [(''x'', JStr ''{{a.b}}'')]]), (''m'', JStr ''{{a.b}}'')]"
     "''k''" "JList [JStr ''{{a.b}}'', JObj [(''x'', JStr ''{{a.b}}'')]]" bare_workflow "[(''a'', JObj [(''b'', JInt 3)])]"]
  by simp

text \<open>
  Claim C5. When the walk of a reference string fails, with a \<open>KeyError\<close> (missing
  key) or a \<open>TypeError\<close> (indexing a value that is not a dictionary), which are the
  only failures there are, that input becomes \<open>None\<close> and the warning with the path
  is logged. The loop still resolves every declared input, and each other input gets
  the value it gets by itself, the same as when the failing input is not declared.
\<close>

theorem failed_reference_resolves_to_null:
  assumes "distinct (map fst inputs)" and "(key, JStr s) \<in> set inputs" and "is_reference (JStr s)"
    and "walk (if hd (ref_parts s) = ''config'' then cfg else JObj sd) (ref_parts s) = Inl e"
  shows "map_of (fst (resolve_inputs cfg inputs sd)) key = Some JNull
       \<and> (e = KeyError \<or> e = TypeError)
       \<and> (WARNING, (if hd (ref_parts s) = ''config'' then ''Could not resolve config reference: ''
                     else ''Could not resolve reference: '') @ ref_path_of s)
           \<in> set (snd (resolve_inputs cfg inputs sd))
       \<and> map fst (fst (resolve_inputs cfg inputs sd)) = map fst inputs
       \<and> (\<forall>(k, v) \<in> set inputs. k \<noteq> key \<longrightarrow>
            map_of (fst (resolve_inputs cfg inputs sd)) k = Some (fst (resolve_value cfg sd v))
          \<and> map_of (fst (resolve_inputs cfg inputs sd)) k
              = map_of (fst (resolve_inputs cfg (filter (\<lambda>p. fst p \<noteq> key) inputs) sd)) k)"
proof -
  let ?w = "(WARNING, (if hd (ref_parts s) = ''config'' then ''Could not resolve config reference: ''
                     else ''Could not resolve reference: '') @ ref_path_of s)"
  from assms(3,4) have r: "resolve_value cfg sd (JStr s) = (JNull, [?w])"
    by (auto simp: ref_parts_def Let_def)
  have 1: "map_of (fst (resolve_inputs cfg inputs sd)) key = Some JNull"
    using resolved_lookup [OF assms(1,2), of cfg sd] r by simp
  have 2: "e = KeyError \<or> e = TypeError" using assms(4) by (rule walk_raises)
  have 3: "?w \<in> set (snd (resolve_inputs cfg inputs sd))"
    using resolved_warnings [OF assms(1,2), of cfg sd] r by simp
  have 4: "map fst (fst (resolve_inputs cfg inputs sd)) = map fst inputs"
    using assms(1) by (rule resolved_keys)
  have d': "distinct (map fst (filter (\<lambda>p. fst p \<noteq> key) inputs))"
    using assms(1) by (simp add: distinct_map_filter)
  have 5: "map_of (fst (resolve_inputs cfg inputs sd)) k = Some (fst (resolve_value cfg sd v))
          \<and> map_of (fst (resolve_inputs cfg inputs sd)) k
              = map_of (fst (resolve_inputs cfg (filter (\<lambda>p. fst p \<noteq> key) inputs) sd)) k"
    if "(k, v) \<in> set inputs" and "k \<noteq> key" for k v
  proof -
    from that have "(k, v) \<in> set (filter (\<lambda>p. fst p \<noteq> key) inputs)" by simp
    from resolved_lookup [OF d' this, of cfg sd] resolved_lookup [OF assms(1) that(1), of cfg sd]
    show ?thesis by simp
  qed
  from 1 2 3 4 5 show ?thesis by blast
qed

theorem failed_reference_resolves_to_null_witness:
  "distinct (map fst [(''n'', JStr ''{{A.output.count}}''), (''m'', JStr ''{{seed.x}}''), (''lit'', JInt 5)])
   \<and> is_reference (JStr ''{{A.output.count}}'')
   \<and> walk (JObj [(''seed'', JObj [(''x'', JInt 1)])]) (ref_parts ''{{A.output.count}}'') = Inl KeyError
   \<and> map_of (fst (resolve_inputs bare_workflow
       [(''n'', JStr ''{{A.output.count}}''), (''m'', JStr ''{{seed.x}}''), (''lit'', JInt 5)]
       [(''seed'', JObj [(''x'', JInt 1)])])) ''n'' = Some JNull
   \<and> (WARNING, ''Could not resolve reference: A.output.count'')
       \<in> set (snd (resolve_inputs bare_workflow
       [(''n'', JStr ''{{A.output.count}}''), (''m'', JStr ''{{seed.x}}''), (''lit'', JInt 5)]
       [(''seed'', JObj [(''x'', JInt 1)])]))
   \<and> map_of (fst (resolve_inputs bare_workflow
       [(''n'', JStr ''{{A.output.count}}''), (''m'', JStr ''{{seed.x}}''), (''lit'', JInt 5)]
       [(''seed'', JObj [(''x'', JInt 1)])])) ''m'' = Some (JInt 1)"
proof -
  let ?inputs = "[(''n'', JStr ''{{A.output.count}}''), (''m'', JStr ''{{seed.x}}''), (''lit'', JInt 5)]"
  let ?sd = "[(''seed'', JObj [(''x'', JInt 1)])]"
  have h1: "distinct (map fst ?inputs)" by simp
  have h2: "(''n'', JStr ''{{A.output.count}}'') \<in> set ?inputs" by simp
  have h3: "is_reference (JStr ''{{A.output.count}}'')" by code_simp
  have p: "ref_parts ''{{A.output.count}}'' = [''A'', ''output'', ''count'']" by code_simp
  have rp: "ref_path_of ''{{A.output.count}}'' = ''A.output.count''" by code_simp
  have h4: "walk (if hd (ref_parts ''{{A.output.count}}'') = ''config'' then bare_workflow else JObj ?sd)
              (ref_parts ''{{A.output.count}}'') = Inl KeyError"
    by (simp add: p)
  have m: "fst (resolve_value bare_workflow ?sd (JStr ''{{seed.x}}'')) = JInt 1" by code_simp
  from failed_reference_resolves_to_null [OF h1 h2 h3 h4] h1 h3 h4 m show ?thesis
    by (simp add: p rp)
qed


section \<open>Properties of the engine\<close>

lemma map_of_update_neq: "n \<noteq> k \<Longrightarrow> map_of (AList.update k v al) n = map_of al n"
  by (simp add: update_conv')


lemma ensure_agent_result:
  assumes "ensure_agent w name b = Inr b1"
  shows "map_of (agents b1) name \<noteq> None"
    and "workflow_config b1 = workflow_config b"
    and "graph b1 = graph b"
    and "n \<noteq> name \<Longrightarrow> map_of (agents b1) n = map_of (agents b) n"
    and "map_of (agents b) n \<noteq> None \<Longrightarrow> map_of (agents b1) n = map_of (agents b) n"
  using assms
  by (auto simp: ensure_agent_def update_conv' split: if_splits sum.splits prod.splits)

lemma run_handler_result:
  assumes "run_handler w step bs = Inr c"
  shows "get_string step ''id'' = Inr (call_step_id c)"
    and "get_string step ''agent'' = Inr (call_agent_name c)"
    and "map_of (agents (call_builder c)) (call_agent_name c) \<noteq> None"
    and "workflow_config (call_builder c) = workflow_config (fst bs)"
    and "graph (call_builder c) = graph (fst bs)"
    and "map_of (agents (fst bs)) n \<noteq> None \<Longrightarrow> map_of (agents (call_builder c)) n \<noteq> None"
    and "n \<noteq> call_agent_name c \<Longrightarrow> map_of (agents (call_builder c)) n = map_of (agents (fst bs)) n"
proof -
  from assms obtain step_id name b1 a declared items inputs warnings tools tools_config instructions outcome a'
    where id: "get_string step ''id'' = Inr step_id"
      and ag: "get_string step ''agent'' = Inr name"
      and en: "ensure_agent w name ((fst bs)\<lparr>logged := logged (fst bs) @
                  [(INFO, ''Executing node: '' @ step_id @ '' ('' @ name @ '')'')]\<rparr>) = Inr b1"
      and c: "c = \<lparr>call_step_id = step_id, call_agent_name = name, call_inputs = inputs,
               call_outcome = outcome,
               call_builder = b1\<lparr>agents := AList.update name a' (agents b1),
                                 logged := logged b1 @ warnings\<rparr>\<rparr>"
    by (auto simp: run_handler_def split: sum.splits option.splits prod.splits)
  note e = ensure_agent_result [OF en]
  show "get_string step ''id'' = Inr (call_step_id c)" using id c by simp
  show "get_string step ''agent'' = Inr (call_agent_name c)" using ag c by simp
  show "map_of (agents (call_builder c)) (call_agent_name c) \<noteq> None" using c by (simp add: update_conv')
  show "workflow_config (call_builder c) = workflow_config (fst bs)" using c e(2) by simp
  show "graph (call_builder c) = graph (fst bs)" using c e(3) by simp
  show "map_of (agents (fst bs)) n \<noteq> None \<Longrightarrow> map_of (agents (call_builder c)) n \<noteq> None"
    using c e(5) [of n] by (auto simp: update_conv')
  show "n \<noteq> call_agent_name c \<Longrightarrow> map_of (agents (call_builder c)) n = map_of (agents (fst bs)) n"
    using c e(4) [of n] by (simp add: update_conv')
qed


text \<open>
  The node functions of a list of steps, one after the other on the state the one
  before left; an exception of a node function ends the run. \<open>run_calls\<close> lists
  the handler calls of such a run: for each step that reached its call, the step id,
  the handler name, the resolved inputs and the outcome of the call.
\<close>

fun run_steps :: "world \<Rightarrow> json list \<Rightarrow> builder \<times> workflow_state \<Rightarrow> py_exn + (builder \<times> workflow_state)" where
  "run_steps w [] bs = Inr bs"
| "run_steps w (step # steps) bs =
     (case node_function w step bs of
        Inl e \<Rightarrow> Inl e
      | Inr bs' \<Rightarrow> run_steps w steps bs')"

fun run_calls :: "world \<Rightarrow> json list \<Rightarrow> builder \<times> workflow_state \<Rightarrow> step_call list" where
  "run_calls w [] bs = []"
| "run_calls w (step # steps) bs =
     (case run_handler w step bs of
        Inl e \<Rightarrow> []
      | Inr c \<Rightarrow>
          c # (case node_function w step bs of
                 Inl e \<Rightarrow> []
               | Inr bs' \<Rightarrow> run_calls w steps bs'))"

fun returned :: "handler_outcome \<Rightarrow> bool" where
  "returned (Returned result) = True"
| "returned (Raised msg) = False"

text \<open>The graph \<open>build_graph\<close> makes of steps with the ids \<open>ids\<close>: a chain.\<close>

definition chain_graph :: "string list \<Rightarrow> json list \<Rightarrow> state_graph" where
  "chain_graph ids steps =
     \<lparr>nodes = zip ids steps,
      edges = zip ids (map Node (tl ids) @ [END]),
      entry_point = Some (hd ids)\<rparr>"

lemma add_nodes_zip:
  assumes "map (\<lambda>s. get_string s ''id'') steps = map Inr ids"
    and "distinct (map fst (nodes g) @ ids)" and "\<forall>i\<in>set ids. valid_node_name w i"
  shows "add_nodes w steps g = Inr (g\<lparr>nodes := nodes g @ zip ids steps\<rparr>)"
  using assms
proof (induction steps arbitrary: ids g)
  case Nil
  then show ?case by simp
next
  case (Cons step steps)
  then obtain i ids' where ids: "ids = i # ids'" by (cases ids) auto
  from Cons.prems ids have gi: "get_string step ''id'' = Inr i"
    and rest: "map (\<lambda>s. get_string s ''id'') steps = map Inr ids'" by auto
  from Cons.prems(2) ids have "i \<notin> fst ` set (nodes g)" by auto
  then have fresh: "map_of (nodes g) i = None" by (simp add: map_of_eq_None_iff)
  from Cons.prems(3) ids have v: "valid_node_name w i" by simp
  have an: "add_node w i step g = Inr (g\<lparr>nodes := nodes g @ [(i, step)]\<rparr>)"
    using fresh v by (simp add: add_node_def)
  have d: "distinct (map fst (nodes (g\<lparr>nodes := nodes g @ [(i, step)]\<rparr>)) @ ids')"
    using Cons.prems(2) ids by auto
  from Cons.prems(3) ids have v': "\<forall>i\<in>set ids'. valid_node_name w i" by simp
  show ?case using Cons.IH [OF rest d v'] gi an ids by simp
qed

lemma add_edges_zip:
  assumes "map (\<lambda>s. get_string s ''id'') steps = map Inr ids"
  shows "add_edges steps g = Inr (g\<lparr>edges := edges g @ zip ids (map Node (tl ids))\<rparr>)"
  using assms
proof (induction steps g arbitrary: ids rule: add_edges.induct)
  case (1 step nxt steps g)
  then obtain a b ids' where ids: "ids = a # b # ids'"
    by (cases ids; cases "tl ids") auto
  from "1.prems" ids have ga: "get_string step ''id'' = Inr a" and gb: "get_string nxt ''id'' = Inr b"
    and rest: "map (\<lambda>s. get_string s ''id'') (nxt # steps) = map Inr (b # ids')" by auto
  show ?case using "1.IH" [OF ga gb rest] ga gb ids by (simp add: add_edge_def)
qed auto


lemma zip_snoc_last:
  "ids \<noteq> [] \<Longrightarrow> length xs = length ids - 1 \<Longrightarrow> zip ids (xs @ [e]) = zip ids xs @ [(last ids, e)]"
proof (induction ids arbitrary: xs)
  case Nil
  then show ?case by simp
next
  case (Cons i ids)
  show ?case
  proof (cases ids)
    case Nil
    with Cons.prems show ?thesis by simp
  next
    case (Cons j ids')
    with Cons.prems obtain x xs' where xs: "xs = x # xs'" by (cases xs) auto
    with Cons.prems Cons have "length xs' = length ids - 1" by simp
    with Cons.IH [of xs'] Cons xs show ?thesis by simp
  qed
qed

lemma build_graph_chain:
  assumes "py_truthy (workflow_config b)"
    and "py_getitem (workflow_config b) ''steps'' = Inr (JList steps)"
    and "steps \<noteq> []"
    and "map (\<lambda>s. get_string s ''id'') steps = map Inr ids"
    and "distinct ids" and "\<forall>i\<in>set ids. valid_node_name w i"
  shows "build_graph w b =
           Inr (b\<lparr>graph := Some (chain_graph ids steps),
                  logged := logged b @ [(INFO, ''LangGraph built successfully'')]\<rparr>)"
proof -
  from assms(4) have len: "length ids = length steps" by (metis length_map)
  with assms(3) have ne: "ids \<noteq> []" by auto
  have n: "add_nodes w steps empty_graph = Inr (empty_graph\<lparr>nodes := zip ids steps\<rparr>)"
    using add_nodes_zip [OF assms(4), of empty_graph w] assms(5,6) by (simp add: empty_graph_def)
  have e: "add_edges steps (empty_graph\<lparr>nodes := zip ids steps\<rparr>)
             = Inr (empty_graph\<lparr>nodes := zip ids steps, edges := zip ids (map Node (tl ids))\<rparr>)"
    using add_edges_zip [OF assms(4), of "empty_graph\<lparr>nodes := zip ids steps\<rparr>"]
    by (simp add: empty_graph_def)
  obtain first rest where st: "steps = first # rest" using assms(3) by (cases steps) auto
  have f: "get_string first ''id'' = Inr (hd ids)"
    using assms(4) st ne by (cases ids) auto
  have "map (\<lambda>s. get_string s ''id'') steps ! (length steps - 1) = map Inr ids ! (length steps - 1)"
    using assms(4) by simp
  then have l: "get_string (last steps) ''id'' = Inr (last ids)"
    using assms(3) ne len by (simp add: last_conv_nth)
  have z: "zip ids (map Node (tl ids)) @ [(last ids, END)] = zip ids (map Node (tl ids) @ [END])"
    using zip_snoc_last [OF ne, of "map Node (tl ids)" END] by simp
  show ?thesis
    using assms(1,2) n e f l z st
    by (simp add: build_graph_def chain_graph_def add_edge_def set_entry_point_def empty_graph_def)
qed

lemma chain_successors:
  assumes "distinct ids" and "i < length ids"
  shows "successors (chain_graph ids steps) (ids ! i)
           = [if Suc i < length ids then Node (ids ! Suc i) else END]"
proof -
  let ?ts = "map Node (tl ids) @ [END]"
  have len: "length ?ts = length ids" using assms(2) by (cases ids) auto
  have "map snd (filter (\<lambda>e. fst e = ids ! i) (zip ids ts)) = [ts ! i]"
    if "length ts = length ids" for ts :: "target list"
    using assms that
  proof (induction ids arbitrary: i ts)
    case Nil
    then show ?case by simp
  next
    case (Cons a ids)
    then obtain t ts' where ts: "ts = t # ts'" by (cases ts) auto
    show ?case
    proof (cases i)
      case 0
      have "filter (\<lambda>e. fst e = a) (zip ids ts') = []"
        using Cons.prems(1) by (auto simp: filter_empty_conv dest: set_zip_leftD)
      with 0 ts show ?thesis by simp
    next
      case (Suc j)
      with Cons.prems have "a \<noteq> ids ! j" by auto
      with Suc ts Cons.IH [of j ts'] Cons.prems show ?thesis by auto
    qed
  qed
  from this [OF len] have "successors (chain_graph ids steps) (ids ! i) = [?ts ! i]"
    by (simp add: successors_def chain_graph_def)
  moreover have "?ts ! i = (if Suc i < length ids then Node (ids ! Suc i) else END)"
    using assms(2) by (cases ids) (auto simp: nth_append nth_tl)
  ultimately show ?thesis by simp
qed

lemma chain_node:
  assumes "distinct ids" and "i < length ids" and "length ids = length steps"
  shows "map_of (nodes (chain_graph ids steps)) (ids ! i) = Some (steps ! i)"
  using assms by (simp add: chain_graph_def map_of_zip_nth)

lemma run_from_chain:
  assumes "distinct ids" and "length ids = length steps"
  shows "i \<le> length steps \<Longrightarrow> length steps - i \<le> k \<Longrightarrow>
         run_from w (chain_graph ids steps) k (if i < length ids then Node (ids ! i) else END) bs
           = run_steps w (drop i steps) bs"
proof (induction "length steps - i" arbitrary: i k bs)
  case 0
  then show ?case using assms(2) by simp
next
  case (Suc m)
  then have i: "i < length steps" by simp
  with Suc obtain k' where k: "k = Suc k'" and k': "length steps - Suc i \<le> k'" by (cases k) auto
  have dr: "drop i steps = steps ! i # drop (Suc i) steps" using i by (simp add: Cons_nth_drop_Suc)
  have m: "m = length steps - Suc i" using Suc.hyps(2) by simp
  have si: "Suc i \<le> length steps" using i by simp
  note ih = Suc.hyps(1) [OF m si k']
  show ?case
    using i assms chain_node [OF assms(1) _ assms(2), of i] chain_successors [OF assms(1), of i steps]
          ih dr k
    by (simp split: sum.splits)
qed

text \<open>What one handler call adds to the history, to the errors and to the data.\<close>

definition call_history :: "step_call \<Rightarrow> json list" where
  "call_history c =
     (case call_outcome c of
        Returned result \<Rightarrow> [history_record (call_step_id c) (call_agent_name c) (call_inputs c) result]
      | Raised msg \<Rightarrow> [])"

definition call_errors :: "step_call \<Rightarrow> string list" where
  "call_errors c =
     (case call_outcome c of
        Returned result \<Rightarrow> []
      | Raised msg \<Rightarrow> [call_step_id c @ '': '' @ msg])"

definition call_data :: "(string \<times> json) list \<Rightarrow> step_call \<Rightarrow> (string \<times> json) list" where
  "call_data d c =
     (case call_outcome c of
        Returned result \<Rightarrow> AList.update (call_step_id c) (JObj [(''output'', result)]) d
      | Raised msg \<Rightarrow> d)"

lemma node_function_effect:
  assumes "node_function w step bs = Inr (b', st')"
  shows "\<exists>c. run_handler w step bs = Inr c
           \<and> history st' = history (snd bs) @ call_history c
           \<and> errors st' = errors (snd bs) @ call_errors c
           \<and> data st' = call_data (data (snd bs)) c
           \<and> workflow_name st' = workflow_name (snd bs)
           \<and> agents b' = agents (call_builder c)
           \<and> workflow_config b' = workflow_config (call_builder c)
           \<and> graph b' = graph (call_builder c)"
proof -
  from assms obtain c where c: "run_handler w step bs = Inr c"
    and r: "(b', st') = record_outcome (call_step_id c) (call_agent_name c) (call_inputs c)
                          (call_outcome c) (call_builder c, snd bs)"
    by (auto simp: node_function_def split: sum.splits)
  from r have "history st' = history (snd bs) @ call_history c
           \<and> errors st' = errors (snd bs) @ call_errors c
           \<and> data st' = call_data (data (snd bs)) c
           \<and> workflow_name st' = workflow_name (snd bs)
           \<and> agents b' = agents (call_builder c)
           \<and> workflow_config b' = workflow_config (call_builder c)
           \<and> graph b' = graph (call_builder c)"
    by (cases "call_outcome c") (auto simp: call_history_def call_errors_def call_data_def)
  with c show ?thesis by blast
qed

lemma run_calls_effect:
  "run_steps w steps bs = Inr (b', st') \<Longrightarrow>
     length (run_calls w steps bs) = length steps
   \<and> map (\<lambda>c. Inr (call_step_id c)) (run_calls w steps bs) = map (\<lambda>s. get_string s ''id'') steps
   \<and> history st' = history (snd bs) @ concat (map call_history (run_calls w steps bs))
   \<and> errors st' = errors (snd bs) @ concat (map call_errors (run_calls w steps bs))
   \<and> data st' = foldl call_data (data (snd bs)) (run_calls w steps bs)
   \<and> workflow_config b' = workflow_config (fst bs)
   \<and> graph b' = graph (fst bs)"
proof (induction steps arbitrary: bs)
  case Nil
  then show ?case by auto
next
  case (Cons step steps)
  from Cons.prems obtain b1 st1 where n: "node_function w step bs = Inr (b1, st1)"
    and r: "run_steps w steps (b1, st1) = Inr (b', st')"
    by (auto split: sum.splits)
  from node_function_effect [OF n] obtain c where c: "run_handler w step bs = Inr c"
    and e: "history st1 = history (snd bs) @ call_history c"
           "errors st1 = errors (snd bs) @ call_errors c"
           "data st1 = call_data (data (snd bs)) c"
           "workflow_config b1 = workflow_config (call_builder c)"
           "graph b1 = graph (call_builder c)"
    by blast
  note h = run_handler_result [OF c]
  from Cons.IH [OF r] c n e h(1,4,5) show ?case by simp
qed

lemma history_steps:
  "map (\<lambda>h. py_getitem h ''step'') (concat (map call_history calls))
     = map (\<lambda>c. Inr (JStr (call_step_id c))) (filter (\<lambda>c. returned (call_outcome c)) calls)"
proof (induction calls)
  case Nil
  then show ?case by simp
next
  case (Cons c calls)
  then show ?case
    by (cases "call_outcome c") (simp_all add: call_history_def history_record_def)
qed

lemma history_length:
  "length (concat (map call_history calls)) = length (filter (\<lambda>c. returned (call_outcome c)) calls)"
proof (induction calls)
  case Nil
  then show ?case by simp
next
  case (Cons c calls)
  then show ?case by (cases "call_outcome c") (simp_all add: call_history_def)
qed

text \<open>What makes the node function of a step return.\<close>

definition step_ok :: "world \<Rightarrow> json \<Rightarrow> bool" where
  "step_ok w step =
     (case step of
        JObj kvs \<Rightarrow>
          (case get_string step ''id'' of Inr step_id \<Rightarrow> True | Inl e \<Rightarrow> False)
        \<and> (case get_string step ''agent'' of
              Inr name \<Rightarrow> import_agent w name \<noteq> OtherRaised
            | Inl e \<Rightarrow> False)
        \<and> (case dict_get kvs ''inputs'' (JObj []) of JObj items \<Rightarrow> True | _ \<Rightarrow> False)
        \<and> (case resolve_env_variables (getenv w) (JObj [(''tools'', dict_get kvs ''tools'' (JList []))]) of
              Inr (JObj tools_config) \<Rightarrow> True
            | _ \<Rightarrow> False)
      | _ \<Rightarrow> False)"

lemma load_agent_total:
  "import_agent w name \<noteq> OtherRaised \<Longrightarrow> \<exists>a lg. load_agent w name = Inr (a, lg)"
  by (cases "import_agent w name") (simp_all add: load_agent_def)

lemma ensure_agent_total:
  assumes "import_agent w name \<noteq> OtherRaised"
  shows "\<exists>b1. ensure_agent w name b = Inr b1"
proof (cases "map_of (agents b) name")
  case None
  from load_agent_total [OF assms] obtain a lg where "load_agent w name = Inr (a, lg)" by blast
  with None show ?thesis by (simp add: ensure_agent_def)
next
  case (Some a)
  then show ?thesis by (simp add: ensure_agent_def)
qed

lemma step_ok_runs:
  assumes "step_ok w step"
  shows "\<exists>c. run_handler w step bs = Inr c"
proof -
  from assms obtain kvs where kvs: "step = JObj kvs" by (cases step) (auto simp: step_ok_def)
  from assms kvs obtain step_id name items tc
    where id: "get_string step ''id'' = Inr step_id"
      and ag: "get_string step ''agent'' = Inr name"
      and im: "import_agent w name \<noteq> OtherRaised"
      and it: "dict_get kvs ''inputs'' (JObj []) = JObj items"
      and tc: "resolve_env_variables (getenv w) (JObj [(''tools'', dict_get kvs ''tools'' (JList []))]) = Inr (JObj tc)"
    by (auto simp: step_ok_def split: sum.splits json.splits)
  let ?b0 = "(fst bs)\<lparr>logged := logged (fst bs) @
                  [(INFO, ''Executing node: '' @ step_id @ '' ('' @ name @ '')'')]\<rparr>"
  from ensure_agent_total [OF im] obtain b1 where en: "ensure_agent w name ?b0 = Inr b1"
    by blast
  from ensure_agent_result(1) [OF en] obtain a where a: "map_of (agents b1) name = Some a" by auto
  obtain inputs warnings where ri: "resolve_inputs (workflow_config b1) items (data (snd bs)) = (inputs, warnings)"
    by (cases "resolve_inputs (workflow_config b1) items (data (snd bs))")
  obtain r where ch: "call_handler w a inputs (dict_get kvs ''instructions'' (JStr [])) (JObj tc) = Inr r"
    by (cases "map_of tc ''tools''") (auto simp: call_handler_def)
  obtain outcome a' where r: "r = (outcome, a')" by (cases r)
  show ?thesis
    using id ag en a it ri tc ch r kvs
    by (simp add: run_handler_def)
qed

lemma steps_ok_run:
  "\<forall>step\<in>set steps. step_ok w step \<Longrightarrow> \<exists>b' st'. run_steps w steps bs = Inr (b', st')"
proof (induction steps arbitrary: bs)
  case Nil
  then show ?case by (cases bs) simp
next
  case (Cons step steps)
  then obtain c where "run_handler w step bs = Inr c" using step_ok_runs [of w step bs] by auto
  then obtain bs' where "node_function w step bs = Inr bs'" by (auto simp: node_function_def)
  with Cons show ?case by simp
qed

text \<open>
  A builder that is ready to run the steps \<open>steps\<close> with the ids \<open>ids\<close>: its workflow
  document is loaded and holds these steps, the ids are distinct strings the graph
  library accepts, the graph is not built yet or is the one \<open>build_graph\<close> makes, the
  workflow name can be logged, and the library allows as many node executions as
  there are steps.
\<close>

definition ready :: "world \<Rightarrow> builder \<Rightarrow> json list \<Rightarrow> string list \<Rightarrow> bool" where
  "ready w b steps ids =
     (py_truthy (workflow_config b)
      \<and> py_getitem (workflow_config b) ''steps'' = Inr (JList steps)
      \<and> steps \<noteq> []
      \<and> map (\<lambda>s. get_string s ''id'') steps = map Inr ids
      \<and> distinct ids
      \<and> (\<forall>i\<in>set ids. valid_node_name w i)
      \<and> (graph b = None \<or> graph b = Some (chain_graph ids steps))
      \<and> (case py_getitem (workflow_config b) ''workflow_name'' of
            Inr name \<Rightarrow> (case py_str name of Inr shown \<Rightarrow> True | Inl e \<Rightarrow> False)
          | Inl e \<Rightarrow> False)
      \<and> length steps \<le> recursion_limit w)"

definition result_of :: "workflow_state \<Rightarrow> run_result" where
  "result_of final_state =
     \<lparr>success = (length (errors final_state) = 0),
      result_data = data final_state,
      result_errors = errors final_state,
      result_history = history final_state\<rparr>"

lemma invoke_chain:
  assumes "distinct ids" and "length ids = length steps" and "steps \<noteq> []"
    and "length steps \<le> recursion_limit w"
  shows "invoke w (chain_graph ids steps) start = run_steps w steps start"
proof -
  from assms(2,3) have ne: "ids \<noteq> []" by auto
  then have hd: "hd ids = ids ! 0" by (simp add: hd_conv_nth)
  from run_from_chain [OF assms(1,2), of 0 "recursion_limit w" w start] assms(4) ne
  have "run_from w (chain_graph ids steps) (recursion_limit w) (Node (ids ! 0)) start
          = run_steps w steps start" by simp
  with hd show ?thesis by (simp add: invoke_def chain_graph_def)
qed

lemma execute_runs:
  assumes "ready w b steps ids"
  shows "\<exists>b0 name.
           py_getitem (workflow_config b) ''workflow_name'' = Inr name
         \<and> workflow_config b0 = workflow_config b
         \<and> agents b0 = agents b
         \<and> graph b0 = Some (chain_graph ids steps)
         \<and> execute w b init =
             (case run_steps w steps (b0, initial_state name init) of
                Inl e \<Rightarrow> Inl e
              | Inr (b2, final_state) \<Rightarrow>
                  Inr (b2\<lparr>logged := logged b2 @ [(INFO, ''Workflow execution completed'')]\<rparr>,
                       result_of final_state))"
proof -
  from assms have tr: "py_truthy (workflow_config b)"
    and st: "py_getitem (workflow_config b) ''steps'' = Inr (JList steps)"
    and ne: "steps \<noteq> []"
    and ids: "map (\<lambda>s. get_string s ''id'') steps = map Inr ids"
    and di: "distinct ids" and va: "\<forall>i\<in>set ids. valid_node_name w i"
    and gr: "graph b = None \<or> graph b = Some (chain_graph ids steps)"
    and lim: "length steps \<le> recursion_limit w"
    by (simp_all add: ready_def)
  from assms obtain name shown where nm: "py_getitem (workflow_config b) ''workflow_name'' = Inr name"
    and tx: "py_str name = Inr shown"
    by (auto simp: ready_def split: sum.splits)
  from ids have len: "length ids = length steps" by (metis length_map)
  note inv = invoke_chain [OF di len ne lim]
  define b1 where "b1 = (if graph b = None
       then b\<lparr>graph := Some (chain_graph ids steps),
              logged := logged b @ [(INFO, ''LangGraph built successfully'')]\<rparr>
       else b)"
  have b1: "(if graph b = None then build_graph w b else Inr b) = Inr b1"
    using build_graph_chain [OF tr st ne ids di va] by (simp add: b1_def)
  have g1: "graph b1 = Some (chain_graph ids steps)" using gr by (auto simp: b1_def)
  have c1: "workflow_config b1 = workflow_config b" and a1: "agents b1 = agents b"
    by (simp_all add: b1_def)
  let ?b0 = "b1\<lparr>logged := logged b1 @ [(INFO, ''Starting workflow execution: '' @ shown)]\<rparr>"
  have "execute w b init =
             (case run_steps w steps (?b0, initial_state name init) of
                Inl e \<Rightarrow> Inl e
              | Inr (b2, final_state) \<Rightarrow>
                  Inr (b2\<lparr>logged := logged b2 @ [(INFO, ''Workflow execution completed'')]\<rparr>,
                       result_of final_state))"
    unfolding execute_def b1 using g1 c1 nm tx inv
    by (simp add: result_of_def split: sum.splits)
  moreover have "workflow_config ?b0 = workflow_config b" "agents ?b0 = agents b"
     "graph ?b0 = Some (chain_graph ids steps)" using c1 a1 g1 by simp_all
  ultimately show ?thesis using nm by blast
qed

section \<open>The run of a workflow\<close>

definition all_steps_ok :: "world \<Rightarrow> json list \<Rightarrow> bool" where
  "all_steps_ok w steps = list_all (step_ok w) steps"

text \<open>
  A world and a workflow to run. The environment is empty. The \<open>agents\<close> package
  has the class \<open>ScoringAgent\<close>, whose handler raises \<open>boom\<close>; any other name is
  not found, and the handler of the instance made in its place returns the inputs it
  got and adds them to its reasoning history.
\<close>

definition demo_world :: world where
  "demo_world =
     \<lparr>getenv = (\<lambda>var. None),
      import_agent = (\<lambda>name.
        if name = ''ScoringAgent''
        then Constructed \<lparr>agent_class = ''ScoringAgent'', agent_name = ''ScoringAgent'',
                          reasoning_history = []\<rparr>
        else ImportErrorRaised ''No module''),
      agent_execute = (\<lambda>a inputs instructions tools.
        if agent_class a = ''ScoringAgent'' then (Raised ''boom'', a)
        else (Returned (JObj [(''inputs_processed'', JObj inputs)]),
              a\<lparr>reasoning_history := reasoning_history a @ [JObj inputs]\<rparr>)),
      valid_node_name = (\<lambda>name. True),
      recursion_limit = 25,
      workflow_file = None\<rparr>"

definition demo_steps :: "json list" where
  "demo_steps =
     [JObj [(''id'', JStr ''A''), (''agent'', JStr ''ScoringAgent''),
            (''inputs'', JObj [(''leads'', JStr ''{{seed.leads}}'')]),
            (''tools'', JList [JObj [(''name'', JStr ''api''),
                                    (''config'', JObj [(''api_key'', JStr ''{{API_KEY}}'')])]])],
      JObj [(''id'', JStr ''B''), (''agent'', JStr ''Nope''),
            (''inputs'', JObj [(''n'', JStr ''{{A.output.count}}'')])],
      JObj [(''id'', JStr ''C''), (''agent'', JStr ''Nope''),
            (''inputs'', JObj [(''m'', JStr ''{{B.output.inputs_processed}}'')])]]"

definition demo_builder :: builder where
  "demo_builder = new_builder\<lparr>workflow_config :=
     JObj [(''workflow_name'', JStr ''demo''), (''steps'', JList demo_steps)]\<rparr>"

lemma map_Inr_eq: "map (\<lambda>c. Inr (f c)) xs = map Inr ys \<Longrightarrow> map f xs = ys"
proof (induction xs arbitrary: ys)
  case Nil
  then show ?case by simp
next
  case (Cons x xs)
  then show ?case by (cases ys) auto
qed

text \<open>A workflow of two steps; the \<open>inputs\<close> of the first are a list, not a
  dictionary.\<close>

definition list_steps :: "json list" where
  "list_steps =
     [JObj [(''id'', JStr ''A''), (''agent'', JStr ''Nope''), (''inputs'', JList [])],
      JObj [(''id'', JStr ''B''), (''agent'', JStr ''Nope'')]]"

definition list_builder :: builder where
  "list_builder = new_builder\<lparr>workflow_config :=
     JObj [(''workflow_name'', JStr ''lists''), (''steps'', JList list_steps)]\<rparr>"

lemma demo_ready: "ready demo_world demo_builder demo_steps [''A'', ''B'', ''C'']"
  by (simp add: ready_def demo_world_def demo_builder_def demo_steps_def new_builder_def get_string_def)

lemma demo_ok: "all_steps_ok demo_world demo_steps"
  by code_simp

lemma demo_run:
  "map_sum id (\<lambda>p. (result_errors (snd p), map (\<lambda>h. py_getitem h ''step'') (result_history (snd p))))
     (execute demo_world demo_builder None)
   = Inr ([''A: boom''], [Inr (JStr ''B''), Inr (JStr ''C'')])"
  by code_simp

text \<open>
  Claim C4, as amended. For a builder that is ready to run its steps, the graph is the
  chain of the steps with the first step as entry point, and a run of it is the run of
  the node functions in the declared order. \<open>execute\<close> raises the exception of the
  first node function that raises, and no later step runs. When every node function
  returns, whatever the handlers do, \<open>execute\<close> returns after the last step: the handler
  calls of the run are those of the steps, in that order, the history has one record
  for each call that returned, in the order of the calls, and the errors are those of
  the calls that raised. The node functions of steps that are \<open>step_ok\<close> all return.
\<close>

theorem run_visits_steps_in_order:
  assumes "ready w b steps ids"
  shows "\<exists>b0 name.
           py_getitem (workflow_config b) ''workflow_name'' = Inr name
         \<and> workflow_config b0 = workflow_config b \<and> agents b0 = agents b
         \<and> entry_point (chain_graph ids steps) = Some (hd ids)
         \<and> (\<forall>start. invoke w (chain_graph ids steps) start = run_steps w steps start)
         \<and> (case run_steps w steps (b0, initial_state name init) of
               Inl e \<Rightarrow> execute w b init = Inl e
             | Inr bs \<Rightarrow>
                 execute w b init
                   = Inr ((fst bs)\<lparr>logged := logged (fst bs) @ [(INFO, ''Workflow execution completed'')]\<rparr>,
                          result_of (snd bs))
               \<and> graph (fst bs) = Some (chain_graph ids steps)
               \<and> map call_step_id (run_calls w steps (b0, initial_state name init)) = ids
               \<and> map (\<lambda>h. py_getitem h ''step'') (history (snd bs))
                   = map (\<lambda>c. Inr (JStr (call_step_id c)))
                       (filter (\<lambda>c. returned (call_outcome c))
                          (run_calls w steps (b0, initial_state name init)))
               \<and> length (history (snd bs))
                   = length (filter (\<lambda>c. returned (call_outcome c))
                               (run_calls w steps (b0, initial_state name init)))
               \<and> errors (snd bs)
                   = concat (map call_errors (run_calls w steps (b0, initial_state name init))))
         \<and> (all_steps_ok w steps \<longrightarrow>
              (\<exists>bs. run_steps w steps (b0, initial_state name init) = Inr bs))"
proof -
  from execute_runs [OF assms(1), of init] obtain b0 name
    where nm: "py_getitem (workflow_config b) ''workflow_name'' = Inr name"
      and c0: "workflow_config b0 = workflow_config b" and a0: "agents b0 = agents b"
      and g0: "graph b0 = Some (chain_graph ids steps)"
      and ex: "execute w b init =
             (case run_steps w steps (b0, initial_state name init) of
                Inl e \<Rightarrow> Inl e
              | Inr (b2, final_state) \<Rightarrow>
                  Inr (b2\<lparr>logged := logged b2 @ [(INFO, ''Workflow execution completed'')]\<rparr>,
                       result_of final_state))"
    by blast
  let ?start = "(b0, initial_state name init)"
  let ?calls = "run_calls w steps ?start"
  from assms(1) have ids: "map (\<lambda>s. get_string s ''id'') steps = map Inr ids"
    and di: "distinct ids" and ne: "steps \<noteq> []"
    and lim: "length steps \<le> recursion_limit w"
    by (simp_all add: ready_def)
  from ids have len: "length ids = length steps" by (metis length_map)
  have 3: "entry_point (chain_graph ids steps) = Some (hd ids)" by (simp add: chain_graph_def)
  have 4: "\<forall>start. invoke w (chain_graph ids steps) start = run_steps w steps start"
    using invoke_chain [OF di len ne lim] by simp
  have 5: "(case run_steps w steps ?start of
               Inl e \<Rightarrow> execute w b init = Inl e
             | Inr bs \<Rightarrow>
                 execute w b init
                   = Inr ((fst bs)\<lparr>logged := logged (fst bs) @ [(INFO, ''Workflow execution completed'')]\<rparr>,
                          result_of (snd bs))
               \<and> graph (fst bs) = Some (chain_graph ids steps)
               \<and> map call_step_id ?calls = ids
               \<and> map (\<lambda>h. py_getitem h ''step'') (history (snd bs))
                   = map (\<lambda>c. Inr (JStr (call_step_id c))) (filter (\<lambda>c. returned (call_outcome c)) ?calls)
               \<and> length (history (snd bs)) = length (filter (\<lambda>c. returned (call_outcome c)) ?calls)
               \<and> errors (snd bs) = concat (map call_errors ?calls))"
  proof (cases "run_steps w steps ?start")
    case (Inl e)
    with ex show ?thesis by simp
  next
    case (Inr bs)
    obtain b2 fin where bs: "bs = (b2, fin)" by (cases bs)
    with Inr have run: "run_steps w steps ?start = Inr (b2, fin)" by simp
    note eff = run_calls_effect [OF run]
    from eff have m: "map (\<lambda>c. Inr (call_step_id c)) ?calls = map (\<lambda>s. get_string s ''id'') steps"
      and h0: "history fin = history (snd ?start) @ concat (map call_history ?calls)"
      and e0: "errors fin = errors (snd ?start) @ concat (map call_errors ?calls)"
      and g2: "graph b2 = graph (fst ?start)"
      by blast+
    have v: "map call_step_id ?calls = ids"
      by (rule map_Inr_eq) (rule trans [OF m ids])
    have h: "history fin = concat (map call_history ?calls)"
      using h0 by (simp add: initial_state_def)
    have e: "errors fin = concat (map call_errors ?calls)"
      using e0 by (simp add: initial_state_def)
    have a: "execute w b init
               = Inr (b2\<lparr>logged := logged b2 @ [(INFO, ''Workflow execution completed'')]\<rparr>, result_of fin)"
      using ex run by simp
    have g: "graph b2 = Some (chain_graph ids steps)" using g2 g0 by simp
    have hs: "map (\<lambda>h. py_getitem h ''step'') (history fin)
             = map (\<lambda>c. Inr (JStr (call_step_id c))) (filter (\<lambda>c. returned (call_outcome c)) ?calls)"
      using h history_steps [of ?calls] by simp
    have hl: "length (history fin) = length (filter (\<lambda>c. returned (call_outcome c)) ?calls)"
      using h history_length [of ?calls] by simp
    from a g v hs hl e show ?thesis unfolding Inr bs by simp
  qed
  have 6: "all_steps_ok w steps \<longrightarrow> (\<exists>bs. run_steps w steps ?start = Inr bs)"
  proof
    assume "all_steps_ok w steps"
    then have "\<forall>step\<in>set steps. step_ok w step"
      by (simp add: all_steps_ok_def list_all_iff)
    from steps_ok_run [OF this, of ?start] show "\<exists>bs. run_steps w steps ?start = Inr bs" by blast
  qed
  from nm c0 a0 3 4 5 6 show ?thesis by blast
qed

theorem run_visits_steps_in_order_witness:
  "ready demo_world demo_builder demo_steps [''A'', ''B'', ''C'']
   \<and> all_steps_ok demo_world demo_steps
   \<and> (\<exists>b' r. execute demo_world demo_builder None = Inr (b', r)
              \<and> graph b' = Some (chain_graph [''A'', ''B'', ''C''] demo_steps)
              \<and> result_errors r = [''A: boom'']
              \<and> map (\<lambda>h. py_getitem h ''step'') (result_history r) = [Inr (JStr ''B''), Inr (JStr ''C'')])"
proof -
  from run_visits_steps_in_order [OF demo_ready, of None]
  obtain b0 name where c: "(case run_steps demo_world demo_steps (b0, initial_state name None) of
               Inl e \<Rightarrow> execute demo_world demo_builder None = Inl e
             | Inr bs \<Rightarrow>
                 execute demo_world demo_builder None
                   = Inr ((fst bs)\<lparr>logged := logged (fst bs) @ [(INFO, ''Workflow execution completed'')]\<rparr>,
                          result_of (snd bs))
               \<and> graph (fst bs) = Some (chain_graph [''A'', ''B'', ''C''] demo_steps)
               \<and> map call_step_id (run_calls demo_world demo_steps (b0, initial_state name None))
                   = [''A'', ''B'', ''C'']
               \<and> map (\<lambda>h. py_getitem h ''step'') (history (snd bs))
                   = map (\<lambda>c. Inr (JStr (call_step_id c)))
                       (filter (\<lambda>c. returned (call_outcome c))
                          (run_calls demo_world demo_steps (b0, initial_state name None)))
               \<and> length (history (snd bs))
                   = length (filter (\<lambda>c. returned (call_outcome c))
                               (run_calls demo_world demo_steps (b0, initial_state name None)))
               \<and> errors (snd bs)
                   = concat (map call_errors (run_calls demo_world demo_steps (b0, initial_state name None))))"
    and ok: "all_steps_ok demo_world demo_steps \<longrightarrow>
              (\<exists>bs. run_steps demo_world demo_steps (b0, initial_state name None) = Inr bs)"
    by (elim exE conjE) iprover
  from ok demo_ok obtain bs where run: "run_steps demo_world demo_steps (b0, initial_state name None) = Inr bs"
    by (elim impE exE) iprover
  let ?b' = "(fst bs)\<lparr>logged := logged (fst bs) @ [(INFO, ''Workflow execution completed'')]\<rparr>"
  from c have e: "execute demo_world demo_builder None = Inr (?b', result_of (snd bs))"
    and g0: "graph (fst bs) = Some (chain_graph [''A'', ''B'', ''C''] demo_steps)"
    unfolding run by simp_all
  from g0 have g: "graph ?b' = Some (chain_graph [''A'', ''B'', ''C''] demo_steps)" by simp
  from demo_run e have f: "result_errors (result_of (snd bs)) = [''A: boom'']"
    "map (\<lambda>h. py_getitem h ''step'') (result_history (result_of (snd bs))) = [Inr (JStr ''B''), Inr (JStr ''C'')]"
    by simp_all
  have "\<exists>b' r. execute demo_world demo_builder None = Inr (b', r)
              \<and> graph b' = Some (chain_graph [''A'', ''B'', ''C''] demo_steps)
              \<and> result_errors r = [''A: boom'']
              \<and> map (\<lambda>h. py_getitem h ''step'') (result_history r) = [Inr (JStr ''B''), Inr (JStr ''C'')]"
    by (rule exI [of _ ?b'], rule exI [of _ "result_of (snd bs)"]) (simp only: e g f simp_thms)
  with demo_ready demo_ok show ?thesis by (intro conjI)
qed

text \<open>
  Claim C4 as stated fails. The \<open>inputs\<close> of the first step are a list:
  \<open>inputs.items()\<close> raises an \<open>AttributeError\<close> outside the \<open>try\<close> statement, the
  exception leaves the node function and \<open>execute\<close>, and the second step is not
  visited.
\<close>

theorem run_visits_steps_in_order_counterexample:
  "ready demo_world list_builder list_steps [''A'', ''B'']
   \<and> node_function demo_world (list_steps ! 0) (list_builder, initial_state (JStr ''lists'') None)
       = Inl AttributeError
   \<and> execute demo_world list_builder None = Inl AttributeError"
proof -
  have r: "ready demo_world list_builder list_steps [''A'', ''B'']"
    by (simp add: ready_def demo_world_def list_builder_def list_steps_def new_builder_def get_string_def)
  have n: "node_function demo_world (list_steps ! 0) (list_builder, initial_state (JStr ''lists'') None)
       = Inl AttributeError" by code_simp
  have e: "execute demo_world list_builder None = Inl AttributeError" by code_simp
  from r n e show ?thesis by (intro conjI)
qed


section \<open>Substitution errors\<close>

lemma run_steps_append:
  "run_steps w (xs @ ys) bs =
     (case run_steps w xs bs of Inl e \<Rightarrow> Inl e | Inr bs' \<Rightarrow> run_steps w ys bs')"
  by (induction xs arbitrary: bs) (auto split: sum.splits)

lemma substitution_error_leaves_node:
  assumes "get_string step ''id'' = Inr step_id"
    and "get_string step ''agent'' = Inr name" and "import_agent w name \<noteq> OtherRaised"
    and "step_get step ''inputs'' (JObj []) = Inr (JObj items)"
    and "step_get step ''tools'' (JList []) = Inr tools"
    and "resolve_env_variables (getenv w) (JObj [(''tools'', tools)]) = Inl e"
  shows "node_function w step bs = Inl e"
proof -
  let ?b0 = "(fst bs)\<lparr>logged := logged (fst bs) @
                  [(INFO, ''Executing node: '' @ step_id @ '' ('' @ name @ '')'')]\<rparr>"
  from ensure_agent_total [OF assms(3)] obtain b1 where en: "ensure_agent w name ?b0 = Inr b1"
    by blast
  from ensure_agent_result(1) [OF en] obtain a where a: "map_of (agents b1) name = Some a" by auto
  obtain inputs warnings where ri: "resolve_inputs (workflow_config b1) items (data (snd bs)) = (inputs, warnings)"
    by (cases "resolve_inputs (workflow_config b1) items (data (snd bs))")
  have "run_handler w step bs = Inl e"
    using assms(1,2,4,5,6) en a ri by (simp add: run_handler_def)
  then show ?thesis by (simp add: node_function_def)
qed

text \<open>
  Claim C2, as amended. When the text of a step's tool configuration is not valid
  after substitution, so that \<open>_resolve_env_variables\<close> raises, the node function of
  the step raises that exception: the call is before the \<open>try\<close> statement. With the
  steps before it returning, \<open>execute\<close> raises it too: nothing is recorded in the
  errors, no later step runs and there is no result.
\<close>

theorem substitution_error_leaves_execute:
  assumes "ready w b (pre @ step # post) ids" and "all_steps_ok w pre"
    and "get_string step ''agent'' = Inr name" and "import_agent w name \<noteq> OtherRaised"
    and "step_get step ''inputs'' (JObj []) = Inr (JObj items)"
    and "step_get step ''tools'' (JList []) = Inr tools"
    and "resolve_env_variables (getenv w) (JObj [(''tools'', tools)]) = Inl e"
  shows "node_function w step bs = Inl e \<and> execute w b init = Inl e"
proof -
  from assms(1) have "map (\<lambda>s. get_string s ''id'') (pre @ step # post) = map Inr ids"
    by (simp add: ready_def)
  then have "map (\<lambda>s. get_string s ''id'') (pre @ step # post) ! length pre = map Inr ids ! length pre"
    by simp
  moreover from \<open>map (\<lambda>s. get_string s ''id'') (pre @ step # post) = map Inr ids\<close>
  have "length ids = length (pre @ step # post)" by (metis length_map)
  ultimately have id: "get_string step ''id'' = Inr (ids ! length pre)"
    by (simp add: nth_append)
  have n: "node_function w step s = Inl e" for s
    using substitution_error_leaves_node [OF id assms(3-7)] .
  from execute_runs [OF assms(1), of init] obtain b0 nm
    where ex: "execute w b init =
             (case run_steps w (pre @ step # post) (b0, initial_state nm init) of
                Inl e \<Rightarrow> Inl e
              | Inr (b2, final_state) \<Rightarrow>
                  Inr (b2\<lparr>logged := logged b2 @ [(INFO, ''Workflow execution completed'')]\<rparr>,
                       result_of final_state))"
    by blast
  from assms(2) have "\<forall>s\<in>set pre. step_ok w s" by (simp add: all_steps_ok_def list_all_iff)
  from steps_ok_run [OF this, of "(b0, initial_state nm init)"] obtain b1 st1
    where "run_steps w pre (b0, initial_state nm init) = Inr (b1, st1)" by blast
  then have "run_steps w (pre @ step # post) (b0, initial_state nm init) = Inl e"
    using n [of "(b1, st1)"] by (simp add: run_steps_append)
  with ex n show ?thesis by simp
qed

text \<open>The demonstration world with \<open>API_KEY\<close> set to one double quote, and a workflow
  whose second step has a tool configuration with the token.\<close>

definition quote_world :: world where
  "quote_world = demo_world\<lparr>getenv := (\<lambda>var. if var = ''API_KEY'' then Some [CHR 0x22] else None)\<rparr>"

definition quote_steps :: "json list" where
  "quote_steps =
     [JObj [(''id'', JStr ''B''), (''agent'', JStr ''Nope'')],
      JObj [(''id'', JStr ''A''), (''agent'', JStr ''ScoringAgent''),
            (''tools'', JList [JObj [(''name'', JStr ''api''),
                                    (''config'', JObj [(''api_key'', JStr ''{{API_KEY}}'')])]])],
      JObj [(''id'', JStr ''C''), (''agent'', JStr ''Nope'')]]"

definition quote_builder :: builder where
  "quote_builder = new_builder\<lparr>workflow_config :=
     JObj [(''workflow_name'', JStr ''demo''), (''steps'', JList quote_steps)]\<rparr>"

lemma quote_text:
  "foldl (substitute (getenv quote_world))
     (json_dumps (JObj [(''tools'', JList [JObj [(''name'', JStr ''api''),
                                    (''config'', JObj [(''api_key'', JStr ''{{API_KEY}}'')])]])]))
     (findall_tokens (json_dumps (JObj [(''tools'', JList [JObj [(''name'', JStr ''api''),
                                    (''config'', JObj [(''api_key'', JStr ''{{API_KEY}}'')])]])])))
   = ''{'' @ [CHR 0x22] @ ''tools'' @ [CHR 0x22] @ '': [{'' @ [CHR 0x22] @ ''name'' @ [CHR 0x22] @ '': ''
       @ [CHR 0x22] @ ''api'' @ [CHR 0x22] @ '', '' @ [CHR 0x22] @ ''config'' @ [CHR 0x22] @ '': {''
       @ [CHR 0x22] @ ''api_key'' @ [CHR 0x22] @ '': '' @ [CHR 0x22, CHR 0x22, CHR 0x22] @ ''}}]}''"
  by code_simp

text \<open>
  Claim C2 as stated fails. With \<open>API_KEY\<close> set to a double quote, the tool
  configuration of step \<open>A\<close> becomes the text
  \<^verbatim>\<open>{"tools": [{"name": "api", "config": {"api_key": """}}]}\<close>, which is not
  valid; step \<open>B\<close> before it runs, and then \<open>execute\<close> raises the decoding error
  instead of returning a result with the failure of step \<open>A\<close> recorded.
\<close>

theorem substitution_error_counterexample:
  "resolve_env_variables (getenv quote_world)
     (JObj [(''tools'', JList [JObj [(''name'', JStr ''api''),
                                    (''config'', JObj [(''api_key'', JStr ''{{API_KEY}}'')])]])])
     = Inl JSONDecodeError
   \<and> execute quote_world quote_builder None = Inl JSONDecodeError"
  by code_simp

theorem substitution_error_leaves_execute_witness:
  "ready quote_world quote_builder quote_steps [''B'', ''A'', ''C'']
   \<and> all_steps_ok quote_world [JObj [(''id'', JStr ''B''), (''agent'', JStr ''Nope'')]]
   \<and> resolve_env_variables (getenv quote_world)
        (JObj [(''tools'', JList [JObj [(''name'', JStr ''api''),
                                    (''config'', JObj [(''api_key'', JStr ''{{API_KEY}}'')])]])])
        = Inl JSONDecodeError
   \<and> execute quote_world quote_builder (Some [(''seed'', JInt 1)]) = Inl JSONDecodeError"
proof -
  let ?pre = "[JObj [(''id'', JStr ''B''), (''agent'', JStr ''Nope'')]]"
  let ?tools = "JList [JObj [(''name'', JStr ''api''),
                            (''config'', JObj [(''api_key'', JStr ''{{API_KEY}}'')])]]"
  let ?step = "JObj [(''id'', JStr ''A''), (''agent'', JStr ''ScoringAgent''), (''tools'', ?tools)]"
  let ?post = "[JObj [(''id'', JStr ''C''), (''agent'', JStr ''Nope'')]]"
  have s: "quote_steps = ?pre @ ?step # ?post" by (simp add: quote_steps_def)
  have r: "ready quote_world quote_builder quote_steps [''B'', ''A'', ''C'']"
    by (simp add: ready_def quote_world_def demo_world_def quote_builder_def quote_steps_def
          new_builder_def get_string_def)
  have ok: "all_steps_ok quote_world ?pre" by code_simp
  have ag: "get_string ?step ''agent'' = Inr ''ScoringAgent''" by (simp add: get_string_def)
  have im: "import_agent quote_world ''ScoringAgent'' \<noteq> OtherRaised"
    by (simp add: quote_world_def demo_world_def)
  have inp: "step_get ?step ''inputs'' (JObj []) = Inr (JObj [])" by (simp add: dict_get_def)
  have tl: "step_get ?step ''tools'' (JList []) = Inr ?tools" by (simp add: dict_get_def)
  have bad: "resolve_env_variables (getenv quote_world) (JObj [(''tools'', ?tools)]) = Inl JSONDecodeError"
    by code_simp
  from substitution_error_leaves_execute [OF r [unfolded s] ok ag im inp tl bad,
         of "(quote_builder, initial_state JNull None)" "Some [(''seed'', JInt 1)]"]
  have "execute quote_world quote_builder (Some [(''seed'', JInt 1)]) = Inl JSONDecodeError"
    by (rule conjunct2)
  with r ok bad show ?thesis by (intro conjI)
qed

section \<open>Failing handlers\<close>

lemma walk_missing_key:
  "parts \<noteq> [] \<Longrightarrow> map_of d (hd parts) = None \<Longrightarrow> walk (JObj d) parts = Inl KeyError"
  by (cases parts) simp_all

lemma absent_reference:
  assumes "is_reference (JStr s)" and "hd (ref_parts s) \<noteq> ''config''"
    and "map_of d (hd (ref_parts s)) = None"
  shows "resolve_value cfg d (JStr s)
           = (JNull, [(WARNING, ''Could not resolve reference: '' @ ref_path_of s)])"
proof -
  have "ref_parts s \<noteq> []" by (simp add: ref_parts_def py_split_nonempty)
  from walk_missing_key [OF this assms(3)] assms(1,2) show ?thesis
    by (simp add: ref_parts_def Let_def)
qed

text \<open>
  Claim C3, as amended. When the handler call of step \<open>i\<close> raises, the node function
  returns with exactly one entry \<open><step id>: <message>\<close> appended to the errors and
  with \<open>data\<close>, \<open>history\<close> and \<open>current_step\<close> as they were, and the run of the
  graph goes on with step \<open>i + 1\<close> (or ends, after the last step) on that state. A
  reference into the output of step \<open>i\<close> then resolves as before the step: to
  \<open>None\<close>, with a warning, when \<open>data\<close> held no entry under the step's id and the id
  is not \<open>config\<close>.
\<close>

theorem handler_failure_is_recorded:
  assumes "run_handler w step (b, st) = Inr c" and "call_outcome c = Raised msg"
    and "distinct ids" and "length ids = length steps" and "i < length steps" and "steps ! i = step"
  shows "get_string step ''id'' = Inr (call_step_id c)
       \<and> node_function w step (b, st)
           = Inr ((call_builder c)\<lparr>logged := logged (call_builder c) @
                     [(ERROR, ''Error in node '' @ call_step_id c @ '': '' @ msg)]\<rparr>,
                  st\<lparr>errors := errors st @ [call_step_id c @ '': '' @ msg]\<rparr>)
       \<and> run_from w (chain_graph ids steps) (Suc k) (Node (ids ! i)) (b, st)
           = run_from w (chain_graph ids steps) k
               (if Suc i < length ids then Node (ids ! Suc i) else END)
               ((call_builder c)\<lparr>logged := logged (call_builder c) @
                     [(ERROR, ''Error in node '' @ call_step_id c @ '': '' @ msg)]\<rparr>,
                st\<lparr>errors := errors st @ [call_step_id c @ '': '' @ msg]\<rparr>)
       \<and> (\<forall>cfg s. is_reference (JStr s) \<longrightarrow> hd (ref_parts s) = call_step_id c \<longrightarrow>
             call_step_id c \<noteq> ''config'' \<longrightarrow> map_of (data st) (call_step_id c) = None \<longrightarrow>
             resolve_value cfg (data (st\<lparr>errors := errors st @ [call_step_id c @ '': '' @ msg]\<rparr>)) (JStr s)
               = (JNull, [(WARNING, ''Could not resolve reference: '' @ ref_path_of s)]))"
proof -
  let ?bs' = "((call_builder c)\<lparr>logged := logged (call_builder c) @
                     [(ERROR, ''Error in node '' @ call_step_id c @ '': '' @ msg)]\<rparr>,
                  st\<lparr>errors := errors st @ [call_step_id c @ '': '' @ msg]\<rparr>)"
  have 1: "get_string step ''id'' = Inr (call_step_id c)"
    using run_handler_result(1) [OF assms(1)] .
  have 2: "node_function w step (b, st) = Inr ?bs'"
    using assms(1,2) by (simp add: node_function_def)
  have i: "i < length ids" using assms(4,5) by simp
  have 3: "run_from w (chain_graph ids steps) (Suc k) (Node (ids ! i)) (b, st)
           = run_from w (chain_graph ids steps) k
               (if Suc i < length ids then Node (ids ! Suc i) else END) ?bs'"
    using chain_node [OF assms(3) i assms(4)] chain_successors [OF assms(3) i, of steps] assms(6) 2
    by simp
  have 4: "resolve_value cfg (data (st\<lparr>errors := errors st @ [call_step_id c @ '': '' @ msg]\<rparr>)) (JStr s)
               = (JNull, [(WARNING, ''Could not resolve reference: '' @ ref_path_of s)])"
    if "is_reference (JStr s)" "hd (ref_parts s) = call_step_id c" "call_step_id c \<noteq> ''config''"
       "map_of (data st) (call_step_id c) = None" for cfg s
    using absent_reference [of s "data st" cfg] that by simp
  from 1 2 3 4 show ?thesis by blast
qed

text \<open>
  Claim C3 as stated fails in its last part. With \<open>initial_data\<close> holding an entry
  under the id \<open>A\<close>, the handler of step \<open>A\<close> raises (one error, no record), and the
  reference \<open>{{A.output.count}}\<close> of step \<open>B\<close> is then not absent: it resolves to
  the seeded \<open>7\<close>.
\<close>

theorem handler_failure_counterexample:
  "map_sum id (\<lambda>p. (result_errors (snd p), map (\<lambda>h. py_getitem h ''inputs'') (result_history (snd p))))
     (execute demo_world demo_builder (Some [(''A'', JObj [(''output'', JObj [(''count'', JInt 7)])])]))
   = Inr ([''A: boom''],
          [Inr (JObj [(''n'', JInt 7)]),
           Inr (JObj [(''m'', JObj [(''n'', JInt 7)])])])"
  by code_simp

theorem handler_failure_is_recorded_witness:
  "map_sum id (\<lambda>c. (call_step_id c, call_outcome c))
      (run_handler demo_world (demo_steps ! 0) (demo_builder, initial_state (JStr ''demo'') None))
     = Inr (''A'', Raised ''boom'')
   \<and> map_sum id snd (node_function demo_world (demo_steps ! 0)
                      (demo_builder, initial_state (JStr ''demo'') None))
     = Inr ((initial_state (JStr ''demo'') None)\<lparr>errors := [''A: boom'']\<rparr>)
   \<and> is_reference (JStr ''{{A.output.count}}'')
   \<and> hd (ref_parts ''{{A.output.count}}'') = ''A''
   \<and> map_of (data (initial_state (JStr ''demo'') None)) ''A'' = None
   \<and> resolve_value JNull (data ((initial_state (JStr ''demo'') None)\<lparr>errors := [''A: boom'']\<rparr>))
        (JStr ''{{A.output.count}}'')
     = (JNull, [(WARNING, ''Could not resolve reference: A.output.count'')])"
proof -
  let ?st = "initial_state (JStr ''demo'') None"
  let ?step = "demo_steps ! 0"
  have e: "map_sum id (\<lambda>c. (call_step_id c, call_outcome c))
             (run_handler demo_world ?step (demo_builder, ?st)) = Inr (''A'', Raised ''boom'')"
    by code_simp
  then obtain c where c: "run_handler demo_world ?step (demo_builder, ?st) = Inr c"
    and o: "call_outcome c = Raised ''boom''" and i: "call_step_id c = ''A''"
    by (cases "run_handler demo_world ?step (demo_builder, ?st)") auto
  have d: "distinct [''A'', ''B'', ''C'']" by simp
  have l: "length [''A'', ''B'', ''C''] = length demo_steps" by (simp add: demo_steps_def)
  have n: "0 < length demo_steps" by (simp add: demo_steps_def)
  note t = handler_failure_is_recorded [OF c o d l n refl, of 0]
  have r: "is_reference (JStr ''{{A.output.count}}'')" by code_simp
  have h: "hd (ref_parts ''{{A.output.count}}'') = ''A''" by code_simp
  have p: "ref_path_of ''{{A.output.count}}'' = ''A.output.count''" by code_simp
  have m: "map_of (data ?st) ''A'' = None" by (simp add: initial_state_def)
  have er: "errors ?st = []" by (simp add: initial_state_def)
  from t have "node_function demo_world ?step (demo_builder, ?st)
           = Inr ((call_builder c)\<lparr>logged := logged (call_builder c) @
                     [(ERROR, ''Error in node '' @ call_step_id c @ '': '' @ ''boom'')]\<rparr>,
                  ?st\<lparr>errors := errors ?st @ [call_step_id c @ '': '' @ ''boom'']\<rparr>)"
    by blast
  then have 1: "map_sum id snd (node_function demo_world ?step (demo_builder, ?st))
     = Inr (?st\<lparr>errors := [''A: boom'']\<rparr>)"
    by (simp add: i er)
  from t have "is_reference (JStr ''{{A.output.count}}'') \<longrightarrow>
        hd (ref_parts ''{{A.output.count}}'') = call_step_id c \<longrightarrow>
        call_step_id c \<noteq> ''config'' \<longrightarrow> map_of (data ?st) (call_step_id c) = None \<longrightarrow>
        resolve_value JNull (data (?st\<lparr>errors := errors ?st @ [call_step_id c @ '': '' @ ''boom'']\<rparr>))
          (JStr ''{{A.output.count}}'')
         = (JNull, [(WARNING, ''Could not resolve reference: '' @ ref_path_of ''{{A.output.count}}'')])"
    by blast
  with r h m have 2: "resolve_value JNull (data (?st\<lparr>errors := [''A: boom'']\<rparr>)) (JStr ''{{A.output.count}}'')
     = (JNull, [(WARNING, ''Could not resolve reference: A.output.count'')])"
    by (simp add: i er p)
  from e 1 r h m 2 show ?thesis by (intro conjI)
qed

section \<open>The handler registry\<close>


text \<open>A step whose handler name is in the cache calls the handler on the cached
  instance, and the cache then holds the instance as the call left it.\<close>

lemma run_handler_uses_cache:
  assumes "run_handler w step bs = Inr c" and "map_of (agents (fst bs)) (call_agent_name c) = Some a"
  shows "\<exists>inputs instructions tools_config a'.
           call_handler w a inputs instructions tools_config = Inr (call_outcome c, a')
         \<and> map_of (agents (call_builder c)) (call_agent_name c) = Some a'"
proof -
  from assms(1) obtain step_id name b1 a0 inputs warnings tools_config instructions outcome a'
    where en: "ensure_agent w name ((fst bs)\<lparr>logged := logged (fst bs) @
                  [(INFO, ''Executing node: '' @ step_id @ '' ('' @ name @ '')'')]\<rparr>) = Inr b1"
      and a0: "map_of (agents b1) name = Some a0"
      and ch: "call_handler w a0 inputs instructions tools_config = Inr (outcome, a')"
      and c: "c = \<lparr>call_step_id = step_id, call_agent_name = name, call_inputs = inputs,
               call_outcome = outcome,
               call_builder = b1\<lparr>agents := AList.update name a' (agents b1),
                                 logged := logged b1 @ warnings\<rparr>\<rparr>"
    by (auto simp: run_handler_def split: sum.splits option.splits prod.splits)
  from assms(2) c have "map_of (agents (fst bs)) name = Some a" by simp
  with en have "b1 = (fst bs)\<lparr>logged := logged (fst bs) @
                  [(INFO, ''Executing node: '' @ step_id @ '' ('' @ name @ '')'')]\<rparr>"
    by (simp add: ensure_agent_def)
  with a0 \<open>map_of (agents (fst bs)) name = Some a\<close> have "a0 = a" by simp
  with ch c show ?thesis by (auto simp: update_conv')
qed








section \<open>Initial data\<close>










section \<open>The round trip of \<open>json.dumps\<close> and \<open>json.loads\<close>\<close>

text \<open>
  The text that \<open>json_dumps\<close> writes is read back by \<open>json_loads\<close>. First the
  integers, then the strings, then the values by induction on the text written.
\<close>

lemma of_char_char_of: "n < 256 \<Longrightarrow> (of_char (char_of n) :: nat) = n"
  by simp

lemma digit_char: "d < 10 \<Longrightarrow> is_digit (char_of (48 + d)) \<and> digit_val (char_of (48 + d)) = d"
  by (simp add: is_digit_def digit_val_def)

lemma digits_of_nonempty: "digits_of n \<noteq> []"
  by (subst digits_of.simps) simp

lemma digits_of_digits: "\<forall>c\<in>set (digits_of n). is_digit c"
proof (induction n rule: digits_of.induct)
  case (1 n)
  show ?case
  proof (cases "n < 10")
    case True
    then show ?thesis using digit_char [of n] by (subst digits_of.simps) simp
  next
    case False
    have "n mod 10 < 10" by simp
    from digit_char [OF this] "1.IH" [OF False] False show ?thesis
      by (subst digits_of.simps) simp
  qed
qed

lemma nat_of_digits_snoc: "nat_of_digits (ds @ [c]) = 10 * nat_of_digits ds + digit_val c"
  by (simp add: nat_of_digits_def)

lemma nat_of_digits_of: "nat_of_digits (digits_of n) = n"
proof (induction n rule: digits_of.induct)
  case (1 n)
  show ?case
  proof (cases "n < 10")
    case True
    then show ?thesis using digit_char [of n]
      by (subst digits_of.simps) (simp add: nat_of_digits_def)
  next
    case False
    have "n mod 10 < 10" by simp
    from digit_char [OF this] "1.IH" [OF False] False show ?thesis
      by (subst digits_of.simps) (simp add: nat_of_digits_snoc)
  qed
qed

lemma digits_of_hd_zero: "hd (digits_of n) = CHR ''0'' \<Longrightarrow> n = 0"
proof (induction n rule: digits_of.induct)
  case (1 n)
  show ?case
  proof (cases "n < 10")
    case True
    with "1.prems" have "char_of (48 + n) = CHR ''0''" by (subst (asm) digits_of.simps) simp
    then have "(of_char (char_of (48 + n)) :: nat) = of_char (CHR ''0'')" by simp
    with True show ?thesis by simp
  next
    case False
    with "1.prems" have "hd (digits_of (n div 10)) = CHR ''0''"
      using digits_of_nonempty [of "n div 10"] by (subst (asm) digits_of.simps) simp
    from "1.IH" [OF False this] False show ?thesis by simp
  qed
qed


text \<open>The text after a value inside a list or a dictionary, or the end of the text.\<close>

definition ends_value :: "string \<Rightarrow> bool" where
  "ends_value rest = (case rest of [] \<Rightarrow> True | c # _ \<Rightarrow> c = CHR '','' \<or> c = CHR '']'' \<or> c = CHR ''}'')"

lemma ends_value_no_digit:
  assumes "ends_value rest"
  shows "takeWhile is_digit rest = []" and "dropWhile is_digit rest = rest"
    and "\<not> frac_matches rest" and "\<not> exp_matches rest"
  using assms
  by (cases rest; auto simp: ends_value_def is_digit_def frac_matches_def exp_matches_def split: list.splits)+

lemma int_part_digits:
  assumes "ends_value rest"
  shows "int_part (digits_of n @ rest) = Some (digits_of n, rest)"
proof -
  obtain c cs where ds: "digits_of n = c # cs" using digits_of_nonempty [of n] by (cases "digits_of n") auto
  have dig: "is_digit c" "\<forall>x\<in>set cs. is_digit x" using digits_of_digits [of n] ds by auto
  show ?thesis
  proof (cases "c = CHR ''0''")
    case True
    with ds have "n = 0" using digits_of_hd_zero [of n] by simp
    moreover have "char_of (48 :: nat) = CHR ''0''" by code_simp
    ultimately have "digits_of n = [CHR ''0'']" by (subst digits_of.simps) simp
    then show ?thesis by (simp add: int_part_def)
  next
    case False
    have "takeWhile is_digit (cs @ rest) = cs" "dropWhile is_digit (cs @ rest) = rest"
      using dig(2) ends_value_no_digit(1,2) [OF assms]
      by (simp_all add: takeWhile_append2 dropWhile_append2)
    with False dig(1) ds show ?thesis by (simp add: int_part_def)
  qed
qed

lemma match_number_int:
  assumes "ends_value rest"
  shows "match_number (int_repr i @ rest) = Some (Inr (JInt i, rest))"
proof (cases "i < 0")
  case True
  have "int_part (digits_of (nat (- i)) @ rest) = Some (digits_of (nat (- i)), rest)"
    using assms by (rule int_part_digits)
  with True ends_value_no_digit(3,4) [OF assms] show ?thesis
    by (simp add: match_number_def int_repr_def nat_of_digits_of)
next
  case False
  obtain c cs where ds: "digits_of (nat i) = c # cs"
    using digits_of_nonempty [of "nat i"] by (cases "digits_of (nat i)") auto
  then have "is_digit c" using digits_of_digits [of "nat i"] by auto
  then have nm: "c \<noteq> CHR ''-''" by (auto simp: is_digit_def)
  have v: "int (nat_of_digits (c # cs)) = i"
    using nat_of_digits_of [of "nat i"] ds False by simp
  have "int_part (digits_of (nat i) @ rest) = Some (digits_of (nat i), rest)"
    using assms by (rule int_part_digits)
  with False nm ds v ends_value_no_digit(3,4) [OF assms] show ?thesis
    by (simp add: match_number_def int_repr_def)
qed

lemma int_repr_first:
  "\<exists>c cs. int_repr i = c # cs \<and> (c = CHR ''-'' \<or> is_digit c)"
proof (cases "i < 0")
  case True
  then show ?thesis by (simp add: int_repr_def)
next
  case False
  obtain c cs where ds: "digits_of (nat i) = c # cs"
    using digits_of_nonempty [of "nat i"] by (cases "digits_of (nat i)") auto
  then have "is_digit c" using digits_of_digits [of "nat i"] by auto
  with False ds show ?thesis by (simp add: int_repr_def)
qed

lemma scan_once_int:
  assumes "ends_value rest"
  shows "scan_once (Suc n) (int_repr i @ rest) = Inr (JInt i, rest)"
proof -
  from int_repr_first [of i] obtain c cs where r: "int_repr i = c # cs"
    and c: "c = CHR ''-'' \<or> is_digit c" by blast
  from c have "c \<noteq> CHR 0x22" "c \<noteq> CHR ''{''" "c \<noteq> CHR ''[''" "c \<noteq> CHR ''n''" "c \<noteq> CHR ''t''"
    "c \<noteq> CHR ''f''" by (auto simp: is_digit_def)
  moreover have "match_number (c # cs @ rest) = Some (Inr (JInt i, rest))"
    using match_number_int [OF assms, of i] r by simp
  ultimately show ?thesis using r by (simp add: startswith_def)
qed


lemma hex_val_hex_digit: "d < 16 \<Longrightarrow> hex_val (hex_digit d) = Some d"
  by (auto simp: hex_val_def hex_digit_def Let_def)

lemma decode_hex4:
  assumes "n < 256"
  shows "decode_uXXXX (hex4 n @ t) = Some n" and "drop 4 (hex4 n @ t) = t"
proof -
  from assms have z: "n div 4096 mod 16 = 0" "n div 256 mod 16 = 0" by simp_all
  from assms have "n div 16 < 16" by simp
  then have "n div 16 mod 16 = n div 16" by simp
  then have "16 * (n div 16 mod 16) + n mod 16 = n" by simp
  with z show "decode_uXXXX (hex4 n @ t) = Some n"
    using hex_val_hex_digit [of "n div 16 mod 16"] hex_val_hex_digit [of "n mod 16"]
          hex_val_hex_digit [of 0]
    by (simp add: hex4_def)
  show "drop 4 (hex4 n @ t) = t" by (simp add: hex4_def)
qed

lemma scanstring_escape_char:
  "scanstring (escape_char c @ t) =
     (case scanstring t of Inl e \<Rightarrow> Inl e | Inr (str, rest) \<Rightarrow> Inr (c # str, rest))"
proof -
  consider (special) "c = CHR 0x22 \<or> c = CHR 0x5C \<or> c = CHR 0x0A \<or> c = CHR 0x0D \<or> c = CHR 0x09
                       \<or> c = CHR 0x0C \<or> c = CHR 0x08"
    | (plain) "c \<noteq> CHR 0x22" "c \<noteq> CHR 0x5C" "c \<noteq> CHR 0x0A" "c \<noteq> CHR 0x0D" "c \<noteq> CHR 0x09"
              "c \<noteq> CHR 0x0C" "c \<noteq> CHR 0x08" "32 \<le> (of_char c :: nat) \<and> (of_char c :: nat) \<le> 126"
    | (other) "c \<noteq> CHR 0x22" "c \<noteq> CHR 0x5C" "c \<noteq> CHR 0x0A" "c \<noteq> CHR 0x0D" "c \<noteq> CHR 0x09"
              "c \<noteq> CHR 0x0C" "c \<noteq> CHR 0x08" "\<not> (32 \<le> (of_char c :: nat) \<and> (of_char c :: nat) \<le> 126)"
    by blast
  then show ?thesis
  proof cases
    case special
    then show ?thesis
      by (elim disjE) (simp_all add: escape_char_def backslash_def split: sum.splits)
  next
    case plain
    then show ?thesis by (simp add: escape_char_def split: sum.splits)
  next
    case other
    have n: "(of_char c :: nat) < 256" by simp
    have e: "escape_char c = CHR 0x5C # CHR ''u'' # hex4 (of_char c)"
      using other by (simp add: escape_char_def)
    show ?thesis
      unfolding e using decode_hex4 [OF n, of t] by (simp split: sum.splits)
  qed
qed

lemma scanstring_escape_string:
  "scanstring (escape_string s @ CHR 0x22 # rest) = Inr (s, rest)"
proof (induction s)
  case Nil
  then show ?case by (simp add: escape_string_def)
next
  case (Cons c s)
  have "escape_string (c # s) @ CHR 0x22 # rest = escape_char c @ (escape_string s @ CHR 0x22 # rest)"
    by (simp add: escape_string_def)
  with Cons scanstring_escape_char [of c "escape_string s @ CHR 0x22 # rest"] show ?case by simp
qed


text \<open>What the decoder makes of the text of a value: in every dictionary, a later
  entry with the key of an earlier one replaces its value.\<close>

fun normalize :: "json \<Rightarrow> json"
and normalize_items :: "json list \<Rightarrow> json list"
and normalize_members :: "(string \<times> json) list \<Rightarrow> (string \<times> json) list" where
  "normalize JNull = JNull"
| "normalize (JBool b) = JBool b"
| "normalize (JInt i) = JInt i"
| "normalize (JStr s) = JStr s"
| "normalize (JList xs) = JList (normalize_items xs)"
| "normalize (JObj kvs) = JObj (dict_of_pairs (normalize_members kvs))"
| "normalize_items [] = []"
| "normalize_items (x # xs) = normalize x # normalize_items xs"
| "normalize_members [] = []"
| "normalize_members ((k, v) # kvs) = (k, normalize v) # normalize_members kvs"

lemma skip_ws_not_ws: "\<not> is_ws c \<Longrightarrow> skip_ws (c # cs) = c # cs"
  by (simp add: skip_ws_def)

lemma skip_ws_space: "skip_ws (CHR '' '' # cs) = skip_ws cs"
  by (simp add: skip_ws_def is_ws_def)

lemma encode_string_first: "encode_string s = CHR 0x22 # escape_string s @ [CHR 0x22]"
  by (simp add: encode_string_def)

lemma json_dumps_first:
  "\<exists>c cs. json_dumps v = c # cs \<and> \<not> is_ws c \<and> c \<noteq> CHR '']'' \<and> c \<noteq> CHR ''}''"
proof (cases v)
  case (JInt i)
  from int_repr_first [of i] obtain c cs where "int_repr i = c # cs" "c = CHR ''-'' \<or> is_digit c"
    by blast
  with JInt show ?thesis by (auto simp: is_ws_def is_digit_def)
qed (auto simp: is_ws_def encode_string_def)

lemma dumps_items_first:
  "xs \<noteq> [] \<Longrightarrow> \<exists>c cs. dumps_items xs = c # cs \<and> \<not> is_ws c \<and> c \<noteq> CHR '']'' \<and> c \<noteq> CHR ''}''"
proof (cases xs)
  case Nil
  then show "xs \<noteq> [] \<Longrightarrow> ?thesis" by simp
next
  case (Cons x xs')
  from json_dumps_first [of x] obtain c cs where "json_dumps x = c # cs"
    "\<not> is_ws c \<and> c \<noteq> CHR '']'' \<and> c \<noteq> CHR ''}''" by blast
  with Cons show ?thesis by (cases xs') auto
qed

lemma dumps_members_first:
  "kvs \<noteq> [] \<Longrightarrow> \<exists>k cs. dumps_members kvs = CHR 0x22 # escape_string k @ CHR 0x22 # cs"
proof (cases kvs)
  case Nil
  then show "kvs \<noteq> [] \<Longrightarrow> ?thesis" by simp
next
  case (Cons kv kvs')
  obtain k v where "kv = (k, v)" by (cases kv)
  with Cons show ?thesis by (cases kvs') (auto simp: encode_string_def)
qed

lemma scan_empty_list: "scan_once (Suc n) (CHR ''['' # CHR '']'' # rest) = Inr (JList [], rest)"
  by (simp add: skip_ws_def is_ws_def)

lemma scan_list:
  "\<not> is_ws d \<Longrightarrow> d \<noteq> CHR '']'' \<Longrightarrow> scan_once (Suc n) (CHR ''['' # d # r) = parse_array n [] (d # r)"
  by (simp add: skip_ws_def)

lemma scan_empty_object: "scan_once (Suc n) (CHR ''{'' # CHR ''}'' # rest) = Inr (JObj [], rest)"
  by (simp add: skip_ws_def is_ws_def)

lemma scan_object: "scan_once (Suc n) (CHR ''{'' # CHR 0x22 # r) = parse_object n [] r"
  by (simp add: skip_ws_def is_ws_def)

lemma scan_string:
  "scan_once (Suc n) (encode_string s @ rest) = Inr (JStr s, rest)"
  by (simp add: encode_string_def scanstring_escape_string)

lemma array_last:
  "scan_once (Suc m) s = Inr (x, CHR '']'' # rest) \<Longrightarrow>
   parse_array (Suc m) acc s = Inr (JList (acc @ [x]), rest)"
  by (simp add: skip_ws_def is_ws_def)

lemma array_next:
  "scan_once (Suc m) s = Inr (x, CHR '','' # CHR '' '' # t) \<Longrightarrow>
   parse_array (Suc m) acc s = parse_array m (acc @ [x]) (skip_ws t)"
  by (simp add: skip_ws_def is_ws_def)

lemma object_last:
  assumes "scan_once (Suc m) (skip_ws t) = Inr (x, CHR ''}'' # rest)"
  shows "parse_object (Suc m) acc (escape_string k @ CHR 0x22 # CHR '':'' # CHR '' '' # t)
           = Inr (JObj (dict_of_pairs (acc @ [(k, x)])), rest)"
proof -
  have "scanstring (escape_string k @ CHR 0x22 # CHR '':'' # CHR '' '' # t)
          = Inr (k, CHR '':'' # CHR '' '' # t)" by (rule scanstring_escape_string)
  moreover have "skip_ws (CHR '':'' # CHR '' '' # t) = CHR '':'' # CHR '' '' # t"
    by (simp add: skip_ws_def is_ws_def)
  moreover have "skip_ws (CHR ''}'' # rest) = CHR ''}'' # rest" by (simp add: skip_ws_def is_ws_def)
  ultimately show ?thesis using assms by (simp add: skip_ws_space)
qed

lemma object_next:
  assumes "scan_once (Suc m) (skip_ws t) = Inr (x, CHR '','' # CHR '' '' # CHR 0x22 # r)"
  shows "parse_object (Suc m) acc (escape_string k @ CHR 0x22 # CHR '':'' # CHR '' '' # t)
           = parse_object m (acc @ [(k, x)]) r"
proof -
  have "scanstring (escape_string k @ CHR 0x22 # CHR '':'' # CHR '' '' # t)
          = Inr (k, CHR '':'' # CHR '' '' # t)" by (rule scanstring_escape_string)
  moreover have "skip_ws (CHR '':'' # CHR '' '' # t) = CHR '':'' # CHR '' '' # t"
    by (simp add: skip_ws_def is_ws_def)
  moreover have "skip_ws (CHR '','' # CHR '' '' # CHR 0x22 # r) = CHR '','' # CHR '' '' # CHR 0x22 # r"
    by (simp add: skip_ws_def is_ws_def)
  moreover have "skip_ws (CHR '' '' # CHR 0x22 # r) = CHR 0x22 # r" by (simp add: skip_ws_def is_ws_def)
  ultimately show ?thesis using assms by (simp add: skip_ws_space)
qed


lemma json_dumps_nonempty: "0 < length (json_dumps v)"
  using json_dumps_first [of v] by auto

lemma scan_once_dumps:
  "(\<forall>n rest. length (json_dumps v) < n \<longrightarrow> ends_value rest \<longrightarrow>
       scan_once n (json_dumps v @ rest) = Inr (normalize v, rest))"
  "(xs \<noteq> [] \<longrightarrow> (\<forall>n acc rest. length (dumps_items xs) < n \<longrightarrow>
       parse_array n acc (dumps_items xs @ CHR '']'' # rest)
         = Inr (JList (acc @ normalize_items xs), rest)))"
  "(kvs \<noteq> [] \<longrightarrow> (\<forall>n acc rest. length (dumps_members kvs) < n \<longrightarrow>
       parse_object n acc (tl (dumps_members kvs) @ CHR ''}'' # rest)
         = Inr (JObj (dict_of_pairs (acc @ normalize_members kvs)), rest)))"
proof (induction v and xs and kvs rule: json_dumps_dumps_items_dumps_members.induct)
  case 1
  show ?case
  proof (intro allI impI)
    fix n :: nat and rest
    assume "length (json_dumps JNull) < n"
    then obtain m where "n = Suc m" by (cases n) auto
    then show "scan_once n (json_dumps JNull @ rest) = Inr (normalize JNull, rest)"
      by (simp add: startswith_def)
  qed
next
  case (2 b)
  show ?case
  proof (intro allI impI)
    fix n :: nat and rest
    assume "length (json_dumps (JBool b)) < n"
    then obtain m where "n = Suc m" by (cases n) auto
    then show "scan_once n (json_dumps (JBool b) @ rest) = Inr (normalize (JBool b), rest)"
      by (cases b) (simp_all add: startswith_def)
  qed
next
  case (3 i)
  show ?case
  proof (intro allI impI)
    fix n :: nat and rest
    assume "length (json_dumps (JInt i)) < n" and e: "ends_value rest"
    then obtain m where "n = Suc m" by (cases n) auto
    then show "scan_once n (json_dumps (JInt i) @ rest) = Inr (normalize (JInt i), rest)"
      using scan_once_int [OF e] by simp
  qed
next
  case (4 s)
  show ?case
  proof (intro allI impI)
    fix n :: nat and rest
    assume "length (json_dumps (JStr s)) < n"
    then obtain m where "n = Suc m" by (cases n) auto
    then show "scan_once n (json_dumps (JStr s) @ rest) = Inr (normalize (JStr s), rest)"
      using scan_string [of m s rest] by simp
  qed
next
  case (5 xs)
  show ?case
  proof (intro allI impI)
    fix n :: nat and rest
    assume len: "length (json_dumps (JList xs)) < n"
    then obtain m where n: "n = Suc m" by (cases n) auto
    show "scan_once n (json_dumps (JList xs) @ rest) = Inr (normalize (JList xs), rest)"
    proof (cases "xs = []")
      case True
      then show ?thesis using n scan_empty_list [of m rest] by simp
    next
      case False
      from dumps_items_first [OF False] obtain d r where dr: "dumps_items xs = d # r"
        and d: "\<not> is_ws d" "d \<noteq> CHR '']''" by blast
      from len n have "length (dumps_items xs) < m" by simp
      with 5 False have "parse_array m [] (dumps_items xs @ CHR '']'' # rest)
                           = Inr (JList ([] @ normalize_items xs), rest)" by blast
      with scan_list [OF d, of m "r @ CHR '']'' # rest"] dr n show ?thesis by simp
    qed
  qed
next
  case (6 kvs)
  show ?case
  proof (intro allI impI)
    fix n :: nat and rest
    assume len: "length (json_dumps (JObj kvs)) < n"
    then obtain m where n: "n = Suc m" by (cases n) auto
    show "scan_once n (json_dumps (JObj kvs) @ rest) = Inr (normalize (JObj kvs), rest)"
    proof (cases "kvs = []")
      case True
      then show ?thesis using n scan_empty_object [of m rest] by (simp add: dict_of_pairs_def)
    next
      case False
      from dumps_members_first [OF False] obtain k cs
        where dm: "dumps_members kvs = CHR 0x22 # escape_string k @ CHR 0x22 # cs"
        by (elim exE) iprover
      from len n have "length (dumps_members kvs) < m" by simp
      with 6 False have "parse_object m [] (tl (dumps_members kvs) @ CHR ''}'' # rest)
                           = Inr (JObj (dict_of_pairs ([] @ normalize_members kvs)), rest)" by blast
      with scan_object [of m "tl (dumps_members kvs) @ CHR ''}'' # rest"] dm n show ?thesis by simp
    qed
  qed
next
  case 7
  show ?case by simp
next
  case (8 x)
  show ?case
  proof (intro allI impI)
    fix n :: nat and acc rest
    assume len: "length (dumps_items [x]) < n"
    then obtain m where n: "n = Suc m" by (cases n) auto
    have "ends_value (CHR '']'' # rest)" by (simp add: ends_value_def)
    with 8 len n have "scan_once (Suc m) (json_dumps x @ CHR '']'' # rest)
                         = Inr (normalize x, CHR '']'' # rest)" by simp
    from array_last [OF this, of acc] n
    show "parse_array n acc (dumps_items [x] @ CHR '']'' # rest)
            = Inr (JList (acc @ normalize_items [x]), rest)" by simp
  qed
next
  case (9 x y ys)
  show ?case
  proof (intro allI impI)
    fix n :: nat and acc rest
    assume len: "length (dumps_items (x # y # ys)) < n"
    then obtain m where n: "n = Suc m" by (cases n) auto
    let ?t = "dumps_items (y # ys) @ CHR '']'' # rest"
    have "ends_value (CHR '','' # CHR '' '' # ?t)" by (simp add: ends_value_def)
    moreover from len n have "length (json_dumps x) < Suc m" by simp
    ultimately have "scan_once (Suc m) (json_dumps x @ CHR '','' # CHR '' '' # ?t)
                         = Inr (normalize x, CHR '','' # CHR '' '' # ?t)" using "9.IH"(1) by blast
    from array_next [OF this, of acc]
    have a: "parse_array (Suc m) acc (json_dumps x @ CHR '','' # CHR '' '' # ?t)
               = parse_array m (acc @ [normalize x]) (skip_ws ?t)" .
    from dumps_items_first [of "y # ys"] obtain d r where "dumps_items (y # ys) = d # r" "\<not> is_ws d"
      by auto
    then have sk: "skip_ws ?t = ?t" by (simp add: skip_ws_def)
    from len n json_dumps_nonempty [of x] have "length (dumps_items (y # ys)) < m" by simp
    with "9.IH"(2) have "parse_array m (acc @ [normalize x]) ?t
            = Inr (JList ((acc @ [normalize x]) @ normalize_items (y # ys)), rest)" by blast
    with a sk n show "parse_array n acc (dumps_items (x # y # ys) @ CHR '']'' # rest)
            = Inr (JList (acc @ normalize_items (x # y # ys)), rest)" by simp
  qed
next
  case 10
  show ?case by simp
next
  case (11 k v)
  show ?case
  proof (intro allI impI)
    fix n :: nat and acc rest
    assume len: "length (dumps_members [(k, v)]) < n"
    then obtain m where n: "n = Suc m" by (cases n) auto
    from json_dumps_first [of v] obtain d r where "json_dumps v = d # r" "\<not> is_ws d" by blast
    then have sk: "skip_ws (json_dumps v @ CHR ''}'' # rest) = json_dumps v @ CHR ''}'' # rest"
      by (simp add: skip_ws_def)
    have "ends_value (CHR ''}'' # rest)" by (simp add: ends_value_def)
    moreover from len n have "length (json_dumps v) < Suc m" by simp
    ultimately have "scan_once (Suc m) (json_dumps v @ CHR ''}'' # rest)
                         = Inr (normalize v, CHR ''}'' # rest)" using 11 by blast
    with sk have "scan_once (Suc m) (skip_ws (json_dumps v @ CHR ''}'' # rest))
                         = Inr (normalize v, CHR ''}'' # rest)" by simp
    from object_last [OF this, of acc k] n
    show "parse_object n acc (tl (dumps_members [(k, v)]) @ CHR ''}'' # rest)
            = Inr (JObj (dict_of_pairs (acc @ normalize_members [(k, v)])), rest)"
      by (simp add: encode_string_def)
  qed
next
  case (12 k v kv kvs)
  show ?case
  proof (intro allI impI)
    fix n :: nat and acc rest
    assume len: "length (dumps_members ((k, v) # kv # kvs)) < n"
    then obtain m where n: "n = Suc m" by (cases n) auto
    have "kv # kvs \<noteq> []" by simp
    from dumps_members_first [OF this] obtain k' cs
      where dm: "dumps_members (kv # kvs) = CHR 0x22 # escape_string k' @ CHR 0x22 # cs"
      by (elim exE) iprover
    let ?r = "tl (dumps_members (kv # kvs)) @ CHR ''}'' # rest"
    let ?t = "json_dumps v @ CHR '','' # CHR '' '' # CHR 0x22 # ?r"
    from json_dumps_first [of v] obtain d r where "json_dumps v = d # r" "\<not> is_ws d" by blast
    then have sk: "skip_ws ?t = ?t" by (simp add: skip_ws_def)
    have "ends_value (CHR '','' # CHR '' '' # CHR 0x22 # ?r)" by (simp add: ends_value_def)
    moreover from len n have "length (json_dumps v) < Suc m" by simp
    ultimately have "scan_once (Suc m) ?t = Inr (normalize v, CHR '','' # CHR '' '' # CHR 0x22 # ?r)"
      using "12.IH"(1) by blast
    with sk have "scan_once (Suc m) (skip_ws ?t) = Inr (normalize v, CHR '','' # CHR '' '' # CHR 0x22 # ?r)"
      by simp
    from object_next [OF this, of acc k]
    have a: "parse_object (Suc m) acc (escape_string k @ CHR 0x22 # CHR '':'' # CHR '' '' # ?t)
               = parse_object m (acc @ [(k, normalize v)]) ?r" .
    from len n json_dumps_nonempty [of v] have "length (dumps_members (kv # kvs)) < m" by simp
    with "12.IH"(2) have "parse_object m (acc @ [(k, normalize v)]) ?r
            = Inr (JObj (dict_of_pairs ((acc @ [(k, normalize v)]) @ normalize_members (kv # kvs))), rest)"
      by blast
    with a n dm
    show "parse_object n acc (tl (dumps_members ((k, v) # kv # kvs)) @ CHR ''}'' # rest)
            = Inr (JObj (dict_of_pairs (acc @ normalize_members ((k, v) # kv # kvs))), rest)"
      by (simp add: encode_string_def)
  qed
qed

lemma loads_dumps: "json_loads (json_dumps v) = Inr (normalize v)"
proof -
  from json_dumps_first [of v] obtain c cs where "json_dumps v = c # cs" "\<not> is_ws c" by blast
  then have sk: "skip_ws (json_dumps v) = json_dumps v" by (simp add: skip_ws_def)
  have "ends_value []" by (simp add: ends_value_def)
  with scan_once_dumps(1) [of v]
  have "scan_once (Suc (length (json_dumps v))) (json_dumps v @ []) = Inr (normalize v, [])"
    by blast
  with sk show ?thesis by (simp add: json_loads_def skip_ws_def)
qed


text \<open>
  A Python dictionary has every key once. The association lists of the model that
  stand for one have distinct keys, at every depth.
\<close>

fun distinct_keys :: "json \<Rightarrow> bool"
and distinct_keys_items :: "json list \<Rightarrow> bool"
and distinct_keys_members :: "(string \<times> json) list \<Rightarrow> bool" where
  "distinct_keys (JList xs) = distinct_keys_items xs"
| "distinct_keys (JObj kvs) = (distinct (map fst kvs) \<and> distinct_keys_members kvs)"
| "distinct_keys JNull = True"
| "distinct_keys (JBool b) = True"
| "distinct_keys (JInt i) = True"
| "distinct_keys (JStr s) = True"
| "distinct_keys_items [] = True"
| "distinct_keys_items (x # xs) = (distinct_keys x \<and> distinct_keys_items xs)"
| "distinct_keys_members [] = True"
| "distinct_keys_members ((k, v) # kvs) = (distinct_keys v \<and> distinct_keys_members kvs)"

lemma foldl_update_distinct:
  "distinct (map fst (acc @ kvs)) \<Longrightarrow>
   foldl (\<lambda>d (k, v). AList.update k v d) acc kvs = acc @ kvs"
proof (induction kvs arbitrary: acc)
  case Nil
  show ?case by simp
next
  case (Cons kv kvs)
  obtain k v where kv: "kv = (k, v)" by (cases kv)
  from Cons.prems kv have "k \<notin> fst ` set acc" by auto
  then have u: "AList.update k v acc = acc @ [(k, v)]" by (rule update_fresh)
  from Cons.prems kv have "distinct (map fst ((acc @ [(k, v)]) @ kvs))" by simp
  from Cons.IH [OF this] u kv show ?case by simp
qed

lemma dict_of_pairs_distinct: "distinct (map fst kvs) \<Longrightarrow> dict_of_pairs kvs = kvs"
  using foldl_update_distinct [of "[]" kvs] by (simp add: dict_of_pairs_def)

lemma normalize_members_keys: "map fst (normalize_members kvs) = map fst kvs"
  by (induction kvs) auto

lemma normalize_distinct_keys:
  "distinct_keys v \<longrightarrow> normalize v = v"
  "distinct_keys_items xs \<longrightarrow> normalize_items xs = xs"
  "distinct_keys_members kvs \<longrightarrow> normalize_members kvs = kvs"
  by (induction v and xs and kvs rule: distinct_keys_distinct_keys_items_distinct_keys_members.induct)
     (simp_all add: dict_of_pairs_distinct)

lemma distinct_keys_members_append:
  "distinct_keys_members (xs @ ys) = (distinct_keys_members xs \<and> distinct_keys_members ys)"
  by (induction xs) auto

lemma distinct_keys_items_append:
  "distinct_keys_items (xs @ ys) = (distinct_keys_items xs \<and> distinct_keys_items ys)"
  by (induction xs) auto

lemma distinct_keys_members_update:
  "distinct_keys_members al \<Longrightarrow> distinct_keys v \<Longrightarrow> distinct_keys_members (AList.update k v al)"
  by (induction al) auto

lemma distinct_keys_foldl:
  "distinct_keys_members acc \<Longrightarrow> distinct_keys_members kvs \<Longrightarrow> distinct (map fst acc) \<Longrightarrow>
   distinct_keys_members (foldl (\<lambda>d (k, v). AList.update k v d) acc kvs)
   \<and> distinct (map fst (foldl (\<lambda>d (k, v). AList.update k v d) acc kvs))"
proof (induction kvs arbitrary: acc)
  case Nil
  then show ?case by simp
next
  case (Cons kv kvs)
  obtain k v where kv: "kv = (k, v)" by (cases kv)
  from Cons.prems kv have a: "distinct_keys_members (AList.update k v acc)"
    by (simp add: distinct_keys_members_update)
  from Cons.prems have b: "distinct (map fst (AList.update k v acc))"
    by (simp add: distinct_update)
  from Cons.prems kv have c: "distinct_keys_members kvs" by simp
  from Cons.IH [OF a c b] kv show ?case by simp
qed

lemma distinct_keys_dict_of_pairs:
  "distinct_keys_members kvs \<Longrightarrow> distinct_keys (JObj (dict_of_pairs kvs))"
  using distinct_keys_foldl [of "[]" kvs] by (simp add: dict_of_pairs_def)

lemma match_number_int_result: "match_number s = Some (Inr (v, rest)) \<Longrightarrow> distinct_keys v"
  by (auto simp: match_number_def Let_def split: if_splits option.splits prod.splits)


lemma scan_once_distinct_keys:
  "(\<forall>v r. scan_once n s = Inr (v, r) \<longrightarrow> distinct_keys v)"
  "(\<forall>v r. parse_object n pairs s = Inr (v, r) \<longrightarrow> distinct_keys_members pairs \<longrightarrow> distinct_keys v)"
  "(\<forall>v r. parse_array n vals s = Inr (v, r) \<longrightarrow> distinct_keys_items vals \<longrightarrow> distinct_keys v)"
proof (induction n s and n pairs s and n vals s rule: scan_once_parse_object_parse_array.induct)
  case (1 s)
  show ?case by simp
next
  case (2 n)
  show ?case by simp
next
  case (3 n c cs)
  show ?case
  proof (intro allI impI)
    fix v r
    assume a: "scan_once (Suc n) (c # cs) = Inr (v, r)"
    consider (str) "c = CHR 0x22" | (obj) "c \<noteq> CHR 0x22" "c = CHR ''{''"
      | (arr) "c \<noteq> CHR 0x22" "c \<noteq> CHR ''{''" "c = CHR ''[''"
      | (other) "c \<noteq> CHR 0x22" "c \<noteq> CHR ''{''" "c \<noteq> CHR ''[''" by blast
    then show "distinct_keys v"
    proof cases
      case str
      with a show ?thesis by (auto split: sum.splits prod.splits)
    next
      case obj
      show ?thesis
      proof (cases "skip_ws cs")
        case Nil
        with a obj show ?thesis by simp
      next
        case (Cons d r')
        show ?thesis
        proof (cases "d = CHR ''}''")
          case True
          with a obj Cons show ?thesis by auto
        next
          case False
          with a obj Cons have d: "d = CHR 0x22" and p: "parse_object n [] r' = Inr (v, r)"
            by (auto split: if_splits)
          from "3.IH"(1) [OF obj(1) obj(2) Cons False d] p show ?thesis by simp
        qed
      qed
    next
      case arr
      show ?thesis
      proof (cases "skip_ws cs")
        case Nil
        with a arr show ?thesis by simp
      next
        case (Cons d r')
        show ?thesis
        proof (cases "d = CHR '']''")
          case True
          with a arr Cons show ?thesis by auto
        next
          case False
          with a arr Cons have p: "parse_array n [] (d # r') = Inr (v, r)" by simp
          from "3.IH"(2) [OF arr(1) arr(2) arr(3) Cons False] p show ?thesis by simp
        qed
      qed
    next
      case other
      with a show ?thesis
        by (auto split: if_splits option.splits dest: match_number_int_result)
    qed
  qed
next
  case (4 pairs s)
  show ?case by simp
next
  case (5 n pairs s)
  show ?case
  proof (intro allI impI)
    fix v r
    assume a: "parse_object (Suc n) pairs s = Inr (v, r)" and w: "distinct_keys_members pairs"
    from a obtain key s1 where k: "scanstring s = Inr (key, s1)"
      by (cases "scanstring s") auto
    from a k obtain c s2 where s1: "skip_ws s1 = c # s2" by (cases "skip_ws s1") auto
    from a k s1 have c: "\<not> c \<noteq> CHR '':''" by (auto split: if_splits)
    from a k s1 c obtain val s3 where sc: "scan_once (Suc n) (skip_ws s2) = Inr (val, s3)"
      by (cases "scan_once (Suc n) (skip_ws s2)") auto
    from a k s1 c sc obtain d s4 where s3: "skip_ws s3 = d # s4" by (cases "skip_ws s3") auto
    have x: "Inr (key, s1) = Inr (key, s1)" ..
    have y: "(key, s1) = (key, s1)" ..
    from "5.IH"(1) [OF k y s1 c] sc have dv: "distinct_keys val" by simp
    with w have w': "distinct_keys_members (pairs @ [(key, val)])"
      by (simp add: distinct_keys_members_append)
    show "distinct_keys v"
    proof (cases "d = CHR ''}''")
      case True
      with a k s1 c sc s3 have "v = JObj (dict_of_pairs (pairs @ [(key, val)]))" by simp
      with w' show ?thesis by (simp only: distinct_keys_dict_of_pairs)
    next
      case False
      with a k s1 c sc s3 have d: "\<not> d \<noteq> CHR '',''" by (auto split: if_splits)
      from a k s1 c sc s3 False d obtain q s5 where s4: "skip_ws s4 = q # s5"
        by (cases "skip_ws s4") auto
      from a k s1 c sc s3 False d s4 have q: "q = CHR 0x22"
        and p: "parse_object n (pairs @ [(key, val)]) s5 = Inr (v, r)"
        by (auto split: if_splits)
      have z: "(val, s3) = (val, s3)" ..
      from "5.IH"(2) [OF k y s1 c sc z s3 False d s4 q] p w' show ?thesis by simp
    qed
  qed
next
  case (6 vals s)
  show ?case by simp
next
  case (7 n vals s)
  show ?case
  proof (intro allI impI)
    fix v r
    assume a: "parse_array (Suc n) vals s = Inr (v, r)" and w: "distinct_keys_items vals"
    from a obtain val s1 where sc: "scan_once (Suc n) s = Inr (val, s1)"
      by (cases "scan_once (Suc n) s") auto
    from a sc obtain d s2 where s1: "skip_ws s1 = d # s2" by (cases "skip_ws s1") auto
    from "7.IH"(1) sc have dv: "distinct_keys val" by simp
    with w have w': "distinct_keys_items (vals @ [val])" by (simp add: distinct_keys_items_append)
    show "distinct_keys v"
    proof (cases "d = CHR '']''")
      case True
      with a sc s1 have "v = JList (vals @ [val])" by simp
      with w' show ?thesis by simp
    next
      case False
      with a sc s1 have d: "\<not> d \<noteq> CHR '',''" by (auto split: if_splits)
      from a sc s1 False d have p: "parse_array n (vals @ [val]) (skip_ws s2) = Inr (v, r)" by simp
      have z: "(val, s1) = (val, s1)" ..
      from "7.IH"(2) [OF sc z s1 False d] p w' show ?thesis by simp
    qed
  qed
qed

lemma json_loads_distinct_keys: "json_loads s = Inr v \<Longrightarrow> distinct_keys v"
  using scan_once_distinct_keys(1) [of "Suc (length s)" "skip_ws s"]
  by (auto simp: json_loads_def split: sum.splits prod.splits if_splits)

lemma resolve_without_tokens:
  "findall_tokens (json_dumps config) = [] \<Longrightarrow> resolve_env_variables env config = Inr (normalize config)"
  by (simp add: resolve_env_variables_def Let_def loads_dumps)


section \<open>Configs without tokens\<close>

text \<open>A tool config in the shape of the workflow document, and its resolved form.\<close>

definition clay_tools :: json where
  "clay_tools = JObj [(''tools'', JList [JObj [(''name'', JStr ''ClayAPI''),
     (''config'', JObj [(''api_key'', JStr ''{{CLAY_API_KEY}}''), (''limit'', JInt 50)])]])]"

definition clay_tools_resolved :: json where
  "clay_tools_resolved = JObj [(''tools'', JList [JObj [(''name'', JStr ''ClayAPI''),
     (''config'', JObj [(''api_key'', JStr ''MISSING_CLAY_API_KEY''), (''limit'', JInt 50)])]])]"

definition no_env :: "string \<Rightarrow> string option" where
  "no_env = (\<lambda>var. None)"

text \<open>
  Claim C8. A config in whose serialised text the pattern of \<open>_resolve_env_variables\<close>
  finds no token is returned as it is: the loop does not run and the parser reads back
  what the serialiser wrote. Hence resolving again a resolved config that has no token
  left returns it unchanged, in whatever environment.
\<close>

theorem token_free_config_is_unchanged:
  "(distinct_keys config \<and> findall_tokens (json_dumps config) = []
      \<longrightarrow> resolve_env_variables env config = Inr config)
   \<and> (resolve_env_variables env original = Inr resolved
        \<and> findall_tokens (json_dumps resolved) = []
      \<longrightarrow> resolve_env_variables env' resolved = Inr resolved)"
proof (intro conjI impI)
  assume "distinct_keys config \<and> findall_tokens (json_dumps config) = []"
  then show "resolve_env_variables env config = Inr config"
    by (simp add: resolve_without_tokens normalize_distinct_keys)
next
  assume a: "resolve_env_variables env original = Inr resolved
             \<and> findall_tokens (json_dumps resolved) = []"
  then have "distinct_keys resolved"
    by (auto simp: resolve_env_variables_def Let_def dest: json_loads_distinct_keys)
  with a show "resolve_env_variables env' resolved = Inr resolved"
    by (simp add: resolve_without_tokens normalize_distinct_keys)
qed

theorem token_free_config_is_unchanged_witness:
  "distinct_keys clay_tools_resolved
   \<and> findall_tokens (json_dumps clay_tools_resolved) = []
   \<and> resolve_env_variables no_env clay_tools_resolved = Inr clay_tools_resolved
   \<and> resolve_env_variables no_env clay_tools = Inr clay_tools_resolved"
proof -
  have d: "distinct_keys clay_tools_resolved" by code_simp
  have t: "findall_tokens (json_dumps clay_tools_resolved) = []" by code_simp
  have r: "resolve_env_variables no_env clay_tools = Inr clay_tools_resolved" by code_simp
  from token_free_config_is_unchanged
         [of clay_tools_resolved no_env clay_tools clay_tools_resolved no_env] d t r
  show ?thesis by blast
qed

section \<open>Tokens replaced in the serialised text\<close>

text \<open>
  \<open>_resolve_env_variables\<close> replaces the tokens in the text of the config. A token is
  made of braces, capital letters and underscores; none of them is written escaped,
  and none of them is part of what the serialiser writes between the strings. So a
  replacement in the text is a replacement in every string of the config, as long as
  the value put in needs no escaping either.
\<close>

text \<open>The characters of a token, and the characters that a string of the serialised
  text holds as they are.\<close>

definition tok_char :: "char \<Rightarrow> bool" where
  "tok_char c = (c = CHR ''{'' \<or> c = CHR ''}'' \<or> is_var_char c)"

definition needs_no_escape :: "char \<Rightarrow> bool" where
  "needs_no_escape c = (32 \<le> (of_char c :: nat) \<and> (of_char c :: nat) \<le> 126
                         \<and> c \<noteq> CHR 0x22 \<and> c \<noteq> CHR 0x5C)"

definition plain_text :: "string \<Rightarrow> bool" where
  "plain_text s = list_all needs_no_escape s"

text \<open>A text that starts with two opening braces and is made of token characters.\<close>

definition well_formed_token :: "string \<Rightarrow> bool" where
  "well_formed_token tok = (startswith tok ''{{'' \<and> list_all tok_char tok)"

lemma needs_no_escape_char: "needs_no_escape c \<Longrightarrow> escape_char c = [c]"
  by (auto simp: needs_no_escape_def escape_char_def)

lemma escape_string_Nil: "escape_string [] = []"
  by (simp add: escape_string_def)

lemma escape_string_Cons: "escape_string (c # cs) = escape_char c @ escape_string cs"
  by (simp add: escape_string_def)

lemma escape_string_append: "escape_string (a @ b) = escape_string a @ escape_string b"
  by (simp add: escape_string_def)

lemma plain_escape: "plain_text s \<Longrightarrow> escape_string s = s"
  by (induction s) (simp_all add: plain_text_def escape_string_Nil escape_string_Cons needs_no_escape_char)

lemma tok_char_code:
  "tok_char c = ((of_char c :: nat) = 123 \<or> (of_char c :: nat) = 125 \<or> (of_char c :: nat) = 95
                 \<or> (65 \<le> (of_char c :: nat) \<and> (of_char c :: nat) \<le> 90))"
proof -
  have a: "(c = CHR ''{'') = ((of_char c :: nat) = 123)" by (cases c) auto
  have b: "(c = CHR ''}'') = ((of_char c :: nat) = 125)" by (cases c) auto
  have d: "(c = CHR ''_'') = ((of_char c :: nat) = 95)" by (cases c) auto
  show ?thesis unfolding tok_char_def is_var_char_def a b d by blast
qed

lemma tok_char_plain: "tok_char c \<Longrightarrow> needs_no_escape c"
  by (auto simp: tok_char_code needs_no_escape_def)

lemma tok_chars_plain: "list_all tok_char p \<Longrightarrow> plain_text p"
  by (induction p) (simp_all add: plain_text_def tok_char_plain)


lemma hex_digit_code:
  "d < 16 \<Longrightarrow> (48 \<le> (of_char (hex_digit d) :: nat) \<and> (of_char (hex_digit d) :: nat) \<le> 57)
              \<or> (97 \<le> (of_char (hex_digit d) :: nat) \<and> (of_char (hex_digit d) :: nat) \<le> 102)"
  by (simp add: hex_digit_def)

lemma hex_digit_not_tok: "d < 16 \<Longrightarrow> \<not> tok_char (hex_digit d)"
  using hex_digit_code [of d] by (auto simp: tok_char_code)

lemma hex4_not_tok: "x \<in> set (hex4 n) \<Longrightarrow> \<not> tok_char x"
  by (auto simp: hex4_def hex_digit_not_tok)

lemma escape_char_not_tok:
  assumes "\<not> tok_char c" and "x \<in> set (escape_char c)"
  shows "\<not> tok_char x"
proof -
  have q: "\<not> tok_char (CHR 0x5C)" "\<not> tok_char (CHR 0x22)" "\<not> tok_char (CHR ''n'')"
    "\<not> tok_char (CHR ''r'')" "\<not> tok_char (CHR ''t'')" "\<not> tok_char (CHR ''f'')"
    "\<not> tok_char (CHR ''b'')" "\<not> tok_char (CHR ''u'')"
    by (simp_all add: tok_char_code)
  from assms(2) have "x = c \<or> x \<in> {CHR 0x5C, CHR 0x22, CHR ''n'', CHR ''r'', CHR ''t'', CHR ''f'',
                                  CHR ''b'', CHR ''u''} \<or> x \<in> set (hex4 (of_char c))"
    by (auto simp: escape_char_def split: if_splits)
  with assms(1) q show ?thesis by (auto dest: hex4_not_tok)
qed

lemma escape_char_nonempty: "escape_char c \<noteq> []"
  by (simp add: escape_char_def)

lemma startswith_Nil: "startswith s []"
  by (simp add: startswith_def)

lemma startswith_Nil_left: "startswith [] (a # p) = False"
  by (simp add: startswith_def)

lemma startswith_Cons: "startswith (x # xs) (a # p) = (x = a \<and> startswith xs p)"
  by (simp add: startswith_def)

lemma startswith_escape_string:
  "list_all tok_char p \<Longrightarrow> startswith (escape_string s) p = startswith s p"
proof (induction p arbitrary: s)
  case Nil
  show ?case by (simp add: startswith_Nil)
next
  case (Cons a p)
  then have a: "tok_char a" and p: "list_all tok_char p" by simp_all
  show ?case
  proof (cases s)
    case Nil
    then show ?thesis by (simp add: escape_string_Nil startswith_Nil_left)
  next
    case (Cons c cs)
    show ?thesis
    proof (cases "tok_char c")
      case True
      then have "escape_char c = [c]" by (simp add: tok_char_plain needs_no_escape_char)
      with Cons Cons.IH [OF p, of cs] show ?thesis
        by (simp add: escape_string_Cons startswith_Cons)
    next
      case False
      obtain x xs where e: "escape_char c = x # xs"
        using escape_char_nonempty [of c] by (cases "escape_char c") auto
      with False escape_char_not_tok [of c x] have "\<not> tok_char x" by simp
      with a have "x \<noteq> a" by auto
      moreover from a False have "c \<noteq> a" by auto
      ultimately show ?thesis using Cons e by (simp add: escape_string_Cons startswith_Cons)
    qed
  qed
qed

lemma well_formed_token_shape:
  "well_formed_token tok \<Longrightarrow> \<exists>r. tok = CHR ''{'' # CHR ''{'' # r"
  by (cases tok; cases "tl tok") (auto simp: well_formed_token_def startswith_def)

lemma well_formed_token_nonempty: "well_formed_token tok \<Longrightarrow> tok \<noteq> []"
  using well_formed_token_shape [of tok] by auto

lemma replace_step:
  "tok \<noteq> [] \<Longrightarrow> \<not> startswith (c # cs) tok \<Longrightarrow>
   str_replace tok new (c # cs) = c # str_replace tok new cs"
  by (simp add: str_replace.simps(2))

lemma replace_Nil: "tok \<noteq> [] \<Longrightarrow> str_replace tok new [] = []"
  by simp

lemma replace_token:
  "tok \<noteq> [] \<Longrightarrow> str_replace tok new (tok @ e) = new @ str_replace tok new e"
  by (cases tok) (simp_all add: str_replace.simps(2) startswith_def)

lemma no_start_first:
  "well_formed_token tok \<Longrightarrow> c \<noteq> CHR ''{'' \<Longrightarrow> \<not> startswith (c # cs) tok"
  using well_formed_token_shape [of tok] by (auto simp: startswith_Cons)

lemma no_start_second:
  "well_formed_token tok \<Longrightarrow> d \<noteq> CHR ''{'' \<Longrightarrow> \<not> startswith (c # d # cs) tok"
  using well_formed_token_shape [of tok] by (auto simp: startswith_Cons)

lemma not_tok_not_brace: "\<not> tok_char c \<Longrightarrow> c \<noteq> CHR ''{''"
  by (auto simp: tok_char_def)

lemma replace_skip:
  "well_formed_token tok \<Longrightarrow> list_all (\<lambda>x. \<not> tok_char x) a \<Longrightarrow>
   str_replace tok new (a @ b) = a @ str_replace tok new b"
proof (induction a)
  case Nil
  show ?case by simp
next
  case (Cons x xs)
  then have "\<not> startswith (x # xs @ b) tok" by (simp add: no_start_first not_tok_not_brace)
  with Cons show ?case by (simp add: replace_step well_formed_token_nonempty)
qed

lemma startswith_before:
  assumes "c \<notin> set tok"
  shows "startswith (a @ c # b) tok = startswith a tok"
proof (cases "length tok \<le> length a")
  case True
  then show ?thesis by (simp add: startswith_def)
next
  case False
  then have l: "length a < length tok" by simp
  have "\<not> startswith (a @ c # b) tok"
  proof
    assume "startswith (a @ c # b) tok"
    then have "tok = take (length tok) (a @ c # b)" by (simp add: startswith_def)
    with l have "tok ! length a = c" by (metis nth_take nth_append_length)
    with l assms show False by (metis nth_mem)
  qed
  moreover from l have "\<not> startswith a tok" by (auto simp: startswith_def)
  ultimately show ?thesis by simp
qed

lemma startswith_length: "startswith a tok \<Longrightarrow> length tok \<le> length a"
  by (metis startswith_def length_take min.cobounded2 min_def nat_le_linear)

lemma replace_split:
  assumes w: "well_formed_token tok" and c: "\<not> tok_char c"
  shows "str_replace tok new (a @ c # b) = str_replace tok new a @ c # str_replace tok new b"
proof -
  from w have ne: "tok \<noteq> []" by (rule well_formed_token_nonempty)
  from w c have notin: "c \<notin> set tok" by (auto simp: well_formed_token_def list_all_iff)
  from w c have first: "\<not> startswith (c # b) tok" by (simp add: no_start_first not_tok_not_brace)
  show ?thesis
  proof (induction a rule: length_induct)
    case (1 a)
    show ?case
    proof (cases a)
      case Nil
      with first ne show ?thesis by (simp add: replace_step)
    next
      case (Cons x xs)
      show ?thesis
      proof (cases "startswith (x # xs) tok")
        case True
        then have len: "length tok \<le> length (x # xs)" by (rule startswith_length)
        from True have eq: "x # xs = tok @ drop (length tok) (x # xs)"
          by (metis startswith_def append_take_drop_id)
        from ne len have "length (drop (length tok) (x # xs)) < length a"
          using Cons by (cases tok) auto
        with 1 have ih: "str_replace tok new (drop (length tok) (x # xs) @ c # b)
               = str_replace tok new (drop (length tok) (x # xs)) @ c # str_replace tok new b"
          by blast
        have "a @ c # b = tok @ (drop (length tok) (x # xs) @ c # b)"
          using Cons eq by (metis append_assoc)
        then have "str_replace tok new (a @ c # b)
                     = new @ str_replace tok new (drop (length tok) (x # xs) @ c # b)"
          by (simp only: replace_token [OF ne])
        with ih have l: "str_replace tok new (a @ c # b)
                     = new @ str_replace tok new (drop (length tok) (x # xs)) @ c # str_replace tok new b"
          by simp
        have "a = tok @ drop (length tok) (x # xs)" using Cons eq by simp
        then have "str_replace tok new a
                     = str_replace tok new (tok @ drop (length tok) (x # xs))" by simp
        then have "str_replace tok new a = new @ str_replace tok new (drop (length tok) (x # xs))"
          by (simp only: replace_token [OF ne])
        with l show ?thesis by simp
      next
        case False
        from startswith_before [OF notin, of "x # xs" b] False
        have "\<not> startswith ((x # xs) @ c # b) tok" by blast
        then have f: "\<not> startswith (x # (xs @ c # b)) tok" by simp
        from 1 Cons have ih: "str_replace tok new (xs @ c # b)
               = str_replace tok new xs @ c # str_replace tok new b" by simp
        from replace_step [OF ne f] replace_step [OF ne False] ih Cons show ?thesis by simp
      qed
    qed
  qed
qed


lemma replace_escape:
  assumes w: "well_formed_token tok" and p: "plain_text new"
  shows "str_replace tok new (escape_string s) = escape_string (str_replace tok new s)"
proof -
  from w have ne: "tok \<noteq> []" by (rule well_formed_token_nonempty)
  from w have tp: "escape_string tok = tok"
    by (simp add: well_formed_token_def tok_chars_plain plain_escape)
  from w have tc: "list_all tok_char tok" by (simp add: well_formed_token_def)
  from p have np: "escape_string new = new" by (rule plain_escape)
  show ?thesis
  proof (induction s rule: length_induct)
    case (1 s)
    show ?case
    proof (cases s)
      case Nil
      with ne show ?thesis by (simp add: escape_string_Nil)
    next
      case (Cons c cs)
      show ?thesis
      proof (cases "startswith (c # cs) tok")
        case True
        let ?d = "drop (length tok) (c # cs)"
        from True have eq: "s = tok @ ?d" using Cons by (metis startswith_def append_take_drop_id)
        from ne Cons have "length ?d < length s" by (cases tok) auto
        with 1 have ih: "str_replace tok new (escape_string ?d) = escape_string (str_replace tok new ?d)"
          by blast
        have "escape_string s = tok @ escape_string ?d"
          using eq tp by (metis escape_string_append)
        then have l: "str_replace tok new (escape_string s)
                        = new @ str_replace tok new (escape_string ?d)"
          by (simp only: replace_token [OF ne])
        have "str_replace tok new s = str_replace tok new (tok @ ?d)" using eq by simp
        then have "str_replace tok new s = new @ str_replace tok new ?d"
          by (simp only: replace_token [OF ne])
        then have "escape_string (str_replace tok new s) = new @ escape_string (str_replace tok new ?d)"
          by (simp add: escape_string_append np)
        with l ih show ?thesis by simp
      next
        case False
        from 1 Cons have ih: "str_replace tok new (escape_string cs) = escape_string (str_replace tok new cs)"
          by simp
        from False ne have r: "str_replace tok new (c # cs) = c # str_replace tok new cs"
          by (simp add: replace_step)
        show ?thesis
        proof (cases "tok_char c")
          case True
          then have e: "escape_char c = [c]" by (simp add: tok_char_plain needs_no_escape_char)
          from False startswith_escape_string [OF tc, of "c # cs"]
          have "\<not> startswith (escape_string (c # cs)) tok" by simp
          with e have "\<not> startswith (c # escape_string cs) tok" by (simp add: escape_string_Cons)
          with ne have "str_replace tok new (c # escape_string cs) = c # str_replace tok new (escape_string cs)"
            by (simp add: replace_step)
          with e ih r Cons show ?thesis by (simp add: escape_string_Cons)
        next
          case nt: False
          then have "list_all (\<lambda>x. \<not> tok_char x) (escape_char c)"
            by (auto simp: list_all_iff dest: escape_char_not_tok)
          from replace_skip [OF w this, of new "escape_string cs"] ih r Cons
          show ?thesis by (simp add: escape_string_Cons)
        qed
      qed
    qed
  qed
qed

text \<open>A function applied to every string of a value, keys included.\<close>

fun replace_in_strings :: "(string \<Rightarrow> string) \<Rightarrow> json \<Rightarrow> json"
and replace_in_items :: "(string \<Rightarrow> string) \<Rightarrow> json list \<Rightarrow> json list"
and replace_in_members :: "(string \<Rightarrow> string) \<Rightarrow> (string \<times> json) list \<Rightarrow> (string \<times> json) list" where
  "replace_in_strings f JNull = JNull"
| "replace_in_strings f (JBool b) = JBool b"
| "replace_in_strings f (JInt i) = JInt i"
| "replace_in_strings f (JStr s) = JStr (f s)"
| "replace_in_strings f (JList xs) = JList (replace_in_items f xs)"
| "replace_in_strings f (JObj kvs) = JObj (replace_in_members f kvs)"
| "replace_in_items f [] = []"
| "replace_in_items f (x # xs) = replace_in_strings f x # replace_in_items f xs"
| "replace_in_members f [] = []"
| "replace_in_members f ((k, v) # kvs) = (f k, replace_in_strings f v) # replace_in_members f kvs"

lemma replace_encoded:
  assumes w: "well_formed_token tok" and p: "plain_text new"
  shows "str_replace tok new (encode_string s @ rest)
           = encode_string (str_replace tok new s) @ str_replace tok new rest"
proof -
  have q: "\<not> tok_char (CHR 0x22)" by (simp add: tok_char_code)
  then have "list_all (\<lambda>x. \<not> tok_char x) [CHR 0x22]" by simp
  from replace_skip [OF w this, of new "escape_string s @ CHR 0x22 # rest"]
       replace_split [OF w q, of new "escape_string s" rest] replace_escape [OF w p, of s]
  show ?thesis by (simp add: encode_string_def)
qed

lemma int_repr_not_tok: "list_all (\<lambda>x. \<not> tok_char x) (int_repr i)"
proof -
  have d: "list_all (\<lambda>x. \<not> tok_char x) (digits_of n)" for n
    using digits_of_digits [of n] by (auto simp: list_all_iff is_digit_def tok_char_code)
  have "\<not> tok_char (CHR ''-'')" by (simp add: tok_char_code)
  with d show ?thesis by (simp add: int_repr_def)
qed

lemma replace_open_brace:
  assumes w: "well_formed_token tok" and d: "d \<noteq> CHR ''{''"
  shows "str_replace tok new (CHR ''{'' # d # r) = CHR ''{'' # str_replace tok new (d # r)"
  using replace_step [OF well_formed_token_nonempty [OF w] no_start_second [OF w d]] .

lemma replace_close_brace:
  assumes w: "well_formed_token tok"
  shows "str_replace tok new (CHR ''}'' # r) = CHR ''}'' # str_replace tok new r"
proof -
  have "CHR ''}'' \<noteq> CHR ''{''" by simp
  from replace_step [OF well_formed_token_nonempty [OF w] no_start_first [OF w this]]
  show ?thesis .
qed


lemma replace_dumps:
  assumes w: "well_formed_token tok" and p: "plain_text new"
  shows "(\<forall>rest. str_replace tok new (json_dumps v @ rest)
            = json_dumps (replace_in_strings (str_replace tok new) v) @ str_replace tok new rest)"
    and "(\<forall>rest. str_replace tok new (dumps_items xs @ rest)
            = dumps_items (replace_in_items (str_replace tok new) xs) @ str_replace tok new rest)"
    and "(\<forall>rest. str_replace tok new (dumps_members kvs @ rest)
            = dumps_members (replace_in_members (str_replace tok new) kvs) @ str_replace tok new rest)"
proof (induction v and xs and kvs rule: json_dumps_dumps_items_dumps_members.induct)
  case 1
  have "list_all (\<lambda>x. \<not> tok_char x) ''null''" by (simp add: tok_char_code)
  from replace_skip [OF w this] show ?case by simp
next
  case (2 b)
  have t: "list_all (\<lambda>x. \<not> tok_char x) ''true''" by (simp add: tok_char_code)
  have f: "list_all (\<lambda>x. \<not> tok_char x) ''false''" by (simp add: tok_char_code)
  from replace_skip [OF w t] replace_skip [OF w f] show ?case by (cases b) simp_all
next
  case (3 i)
  from replace_skip [OF w int_repr_not_tok] show ?case by simp
next
  case (4 s)
  from replace_encoded [OF w p] show ?case by simp
next
  case (5 xs)
  have o: "list_all (\<lambda>x. \<not> tok_char x) ''[''" by (simp add: tok_char_code)
  have c: "list_all (\<lambda>x. \<not> tok_char x) '']''" by (simp add: tok_char_code)
  show ?case
  proof
    fix rest
    have "str_replace tok new (json_dumps (JList xs) @ rest)
            = str_replace tok new (''['' @ (dumps_items xs @ '']'' @ rest))" by simp
    also have "\<dots> = ''['' @ str_replace tok new (dumps_items xs @ '']'' @ rest)"
      by (rule replace_skip [OF w o])
    also have "str_replace tok new (dumps_items xs @ '']'' @ rest)
                 = dumps_items (replace_in_items (str_replace tok new) xs)
                     @ str_replace tok new ('']'' @ rest)"
      using 5 by blast
    also have "str_replace tok new ('']'' @ rest) = '']'' @ str_replace tok new rest"
      by (rule replace_skip [OF w c])
    finally show "str_replace tok new (json_dumps (JList xs) @ rest)
            = json_dumps (replace_in_strings (str_replace tok new) (JList xs)) @ str_replace tok new rest"
      by simp
  qed
next
  case (6 kvs)
  show ?case
  proof
    fix rest
    obtain d r where dr: "dumps_members kvs @ CHR ''}'' # rest = d # r" and d: "d \<noteq> CHR ''{''"
    proof (cases "kvs = []")
      case True
      then have "dumps_members kvs @ CHR ''}'' # rest = CHR ''}'' # rest" by simp
      moreover have "CHR ''}'' \<noteq> CHR ''{''" by simp
      ultimately show ?thesis using that by blast
    next
      case False
      from dumps_members_first [OF this] obtain k cs
        where "dumps_members kvs = CHR 0x22 # escape_string k @ CHR 0x22 # cs"
        by (elim exE) iprover
      then have "dumps_members kvs @ CHR ''}'' # rest
                   = CHR 0x22 # (escape_string k @ CHR 0x22 # cs @ CHR ''}'' # rest)" by simp
      moreover have "CHR 0x22 \<noteq> CHR ''{''" by simp
      ultimately show ?thesis using that by blast
    qed
    have "str_replace tok new (json_dumps (JObj kvs) @ rest)
            = str_replace tok new (CHR ''{'' # d # r)" using dr by simp
    also have "\<dots> = CHR ''{'' # str_replace tok new (d # r)"
      by (rule replace_open_brace [OF w d])
    also have "str_replace tok new (d # r)
                 = dumps_members (replace_in_members (str_replace tok new) kvs)
                     @ str_replace tok new (CHR ''}'' # rest)"
      using 6 dr by metis
    also have "str_replace tok new (CHR ''}'' # rest) = CHR ''}'' # str_replace tok new rest"
      by (rule replace_close_brace [OF w])
    finally show "str_replace tok new (json_dumps (JObj kvs) @ rest)
            = json_dumps (replace_in_strings (str_replace tok new) (JObj kvs)) @ str_replace tok new rest"
      by simp
  qed
next
  case 7
  show ?case by simp
next
  case (8 x)
  then show ?case by simp
next
  case (9 x y ys)
  have c: "list_all (\<lambda>x. \<not> tok_char x) '', ''" by (simp add: tok_char_code)
  show ?case
  proof
    fix rest
    have "str_replace tok new (dumps_items (x # y # ys) @ rest)
            = str_replace tok new (json_dumps x @ ('', '' @ dumps_items (y # ys) @ rest))" by simp
    also have "\<dots> = json_dumps (replace_in_strings (str_replace tok new) x)
                        @ str_replace tok new ('', '' @ dumps_items (y # ys) @ rest)"
      using "9.IH"(1) by blast
    also have "str_replace tok new ('', '' @ dumps_items (y # ys) @ rest)
                 = '', '' @ str_replace tok new (dumps_items (y # ys) @ rest)"
      by (rule replace_skip [OF w c])
    also have "str_replace tok new (dumps_items (y # ys) @ rest)
                 = dumps_items (replace_in_items (str_replace tok new) (y # ys)) @ str_replace tok new rest"
      using "9.IH"(2) by blast
    finally show "str_replace tok new (dumps_items (x # y # ys) @ rest)
            = dumps_items (replace_in_items (str_replace tok new) (x # y # ys)) @ str_replace tok new rest"
      by simp
  qed
next
  case 10
  show ?case by simp
next
  case (11 k v)
  have c: "list_all (\<lambda>x. \<not> tok_char x) '': ''" by (simp add: tok_char_code)
  show ?case
  proof
    fix rest
    have "str_replace tok new (dumps_members [(k, v)] @ rest)
            = str_replace tok new (encode_string k @ ('': '' @ json_dumps v @ rest))" by simp
    also have "\<dots> = encode_string (str_replace tok new k)
                        @ str_replace tok new ('': '' @ json_dumps v @ rest)"
      by (rule replace_encoded [OF w p])
    also have "str_replace tok new ('': '' @ json_dumps v @ rest)
                 = '': '' @ str_replace tok new (json_dumps v @ rest)"
      by (rule replace_skip [OF w c])
    also have "str_replace tok new (json_dumps v @ rest)
                 = json_dumps (replace_in_strings (str_replace tok new) v) @ str_replace tok new rest"
      using 11 by blast
    finally show "str_replace tok new (dumps_members [(k, v)] @ rest)
            = dumps_members (replace_in_members (str_replace tok new) [(k, v)]) @ str_replace tok new rest"
      by simp
  qed
next
  case (12 k v kv kvs)
  have c: "list_all (\<lambda>x. \<not> tok_char x) '': ''" by (simp add: tok_char_code)
  have m: "list_all (\<lambda>x. \<not> tok_char x) '', ''" by (simp add: tok_char_code)
  obtain k2 v2 where kv: "kv = (k2, v2)" by (cases kv)
  show ?case
  proof
    fix rest
    have "str_replace tok new (dumps_members ((k, v) # kv # kvs) @ rest)
            = str_replace tok new (encode_string k @ ('': '' @ json_dumps v
                 @ ('', '' @ dumps_members (kv # kvs) @ rest)))" by simp
    also have "\<dots> = encode_string (str_replace tok new k)
                        @ str_replace tok new ('': '' @ json_dumps v
                            @ ('', '' @ dumps_members (kv # kvs) @ rest))"
      by (rule replace_encoded [OF w p])
    also have "str_replace tok new ('': '' @ json_dumps v @ ('', '' @ dumps_members (kv # kvs) @ rest))
                 = '': '' @ str_replace tok new (json_dumps v @ ('', '' @ dumps_members (kv # kvs) @ rest))"
      by (rule replace_skip [OF w c])
    also have "str_replace tok new (json_dumps v @ ('', '' @ dumps_members (kv # kvs) @ rest))
                 = json_dumps (replace_in_strings (str_replace tok new) v)
                     @ str_replace tok new ('', '' @ dumps_members (kv # kvs) @ rest)"
      using "12.IH"(1) by blast
    also have "str_replace tok new ('', '' @ dumps_members (kv # kvs) @ rest)
                 = '', '' @ str_replace tok new (dumps_members (kv # kvs) @ rest)"
      by (rule replace_skip [OF w m])
    also have "str_replace tok new (dumps_members (kv # kvs) @ rest)
                 = dumps_members (replace_in_members (str_replace tok new) (kv # kvs))
                     @ str_replace tok new rest"
      using "12.IH"(2) by blast
    finally show "str_replace tok new (dumps_members ((k, v) # kv # kvs) @ rest)
            = dumps_members (replace_in_members (str_replace tok new) ((k, v) # kv # kvs))
                @ str_replace tok new rest"
      by (simp add: kv)
  qed
qed

lemma replace_json_dumps:
  assumes "well_formed_token tok" and "plain_text new"
  shows "str_replace tok new (json_dumps v)
           = json_dumps (replace_in_strings (str_replace tok new) v)"
proof -
  from replace_dumps(1) [OF assms, of v]
  have "str_replace tok new (json_dumps v @ [])
          = json_dumps (replace_in_strings (str_replace tok new) v) @ str_replace tok new []"
    by blast
  with well_formed_token_nonempty [OF assms(1)] show ?thesis by simp
qed


lemma match_token_var:
  "match_token s = Some (var, rest) \<Longrightarrow> list_all is_var_char var"
  by (auto simp: match_token_def Let_def list_all_iff split: if_splits dest: set_takeWhileD)

lemma findall_tokens_vars: "list_all (list_all is_var_char) (findall_tokens s)"
proof (induction s rule: findall_tokens.induct)
  case 1
  show ?case by simp
next
  case (2 c cs)
  show ?case
  proof (cases "match_token (c # cs)")
    case None
    with 2 show ?thesis by simp
  next
    case (Some vr)
    obtain var rest where vr: "vr = (var, rest)" by (cases vr)
    with Some 2 match_token_var [of "c # cs" var rest] show ?thesis by simp
  qed
qed

lemma token_well_formed:
  "list_all is_var_char var \<Longrightarrow> well_formed_token (''{{'' @ var @ ''}}'')"
  by (auto simp: well_formed_token_def startswith_def tok_char_def list_all_iff)

text \<open>The value of a variable, when it is set, needs no escaping in the text of a value.\<close>

definition env_value_plain :: "(string \<Rightarrow> string option) \<Rightarrow> string \<Rightarrow> bool" where
  "env_value_plain env var = (case env var of None \<Rightarrow> True | Some v \<Rightarrow> plain_text v)"

lemma sentinel_plain: "list_all is_var_char var \<Longrightarrow> plain_text (''MISSING_'' @ var)"
proof -
  assume "list_all is_var_char var"
  then have "list_all tok_char var" by (auto simp: list_all_iff tok_char_def)
  moreover have "list_all tok_char ''MISSING_''" by (simp add: tok_char_code)
  ultimately have "list_all tok_char (''MISSING_'' @ var)" by simp
  then show ?thesis by (rule tok_chars_plain)
qed

lemma env_value_is_plain:
  "list_all is_var_char var \<Longrightarrow> env_value_plain env var \<Longrightarrow> plain_text (env_value env var)"
  using sentinel_plain [of var]
  by (cases "env var") (simp_all add: env_value_plain_def env_value_def)

lemma substitute_json_dumps:
  assumes "list_all is_var_char var" and "env_value_plain env var"
  shows "substitute env (json_dumps v) var
           = json_dumps (replace_in_strings (\<lambda>s. substitute env s var) v)"
  using replace_json_dumps [OF token_well_formed [OF assms(1)] env_value_is_plain [OF assms], of v]
  by (simp add: substitute_def)

lemma replace_in_strings_id:
  "replace_in_strings (\<lambda>s. s) v = v"
  "replace_in_items (\<lambda>s. s) xs = xs"
  "replace_in_members (\<lambda>s. s) kvs = kvs"
  by (induction v and xs and kvs rule: json_dumps_dumps_items_dumps_members.induct) simp_all

lemma replace_in_strings_comp:
  "replace_in_strings f (replace_in_strings g v) = replace_in_strings (\<lambda>s. f (g s)) v"
  "replace_in_items f (replace_in_items g xs) = replace_in_items (\<lambda>s. f (g s)) xs"
  "replace_in_members f (replace_in_members g kvs) = replace_in_members (\<lambda>s. f (g s)) kvs"
  by (induction v and xs and kvs rule: json_dumps_dumps_items_dumps_members.induct) simp_all

lemma substitute_all_json_dumps:
  "list_all (list_all is_var_char) vars \<Longrightarrow> list_all (env_value_plain env) vars \<Longrightarrow>
   foldl (substitute env) (json_dumps v) vars
     = json_dumps (replace_in_strings (\<lambda>s. foldl (substitute env) s vars) v)"
proof (induction vars arbitrary: v)
  case Nil
  show ?case by (simp add: replace_in_strings_id)
next
  case (Cons var vars)
  then have a: "list_all is_var_char var" and b: "env_value_plain env var"
    and c: "list_all (list_all is_var_char) vars" and d: "list_all (env_value_plain env) vars"
    by simp_all
  from substitute_json_dumps [OF a b, of v] Cons.IH [OF c d]
  show ?case by (simp add: replace_in_strings_comp)
qed


text \<open>
  A tool config with the token of \<open>API_KEY\<close> twice and the token of \<open>HOST\<close> once;
  an environment with only \<open>HOST\<close> set, and one in which \<open>HOST\<close> is a double quote.
\<close>

definition search_tools :: json where
  "search_tools = JObj [(''tools'', JList [JObj [(''name'', JStr ''search''),
     (''config'', JObj [(''api_key'', JStr ''{{API_KEY}}''),
                        (''url'', JStr ''https://{{HOST}}/v1?key={{API_KEY}}'')])]])]"

definition search_tools_resolved :: json where
  "search_tools_resolved = JObj [(''tools'', JList [JObj [(''name'', JStr ''search''),
     (''config'', JObj [(''api_key'', JStr ''MISSING_API_KEY''),
                        (''url'', JStr ''https://example.com/v1?key=MISSING_API_KEY'')])]])]"

definition host_env :: "string \<Rightarrow> string option" where
  "host_env = (\<lambda>var. if var = ''HOST'' then Some ''example.com'' else None)"

definition quote_env :: "string \<Rightarrow> string option" where
  "quote_env = (\<lambda>var. if var = ''HOST'' then Some [CHR 0x22] else None)"

text \<open>
  Claim C7, as amended. When every variable named by a token of the config is unset, or
  set to a value that needs no escaping in a string of the serialised text,
  \<open>_resolve_env_variables\<close> returns a value: the config with the tokens replaced in
  every string, keys included, one variable after the other in the order the pattern
  finds them, and read back as a dictionary is (of two equal keys the later one stays).
  The token of an unset variable is replaced by \<open>MISSING_\<close> followed by the name of
  the variable.
\<close>

theorem absent_variable_becomes_sentinel:
  assumes "list_all (env_value_plain env) (findall_tokens (json_dumps config))"
  shows "resolve_env_variables env config
           = Inr (normalize (replace_in_strings
                    (\<lambda>s. foldl (substitute env) s (findall_tokens (json_dumps config))) config))
         \<and> (env var = None \<longrightarrow>
              substitute env s var = str_replace (''{{'' @ var @ ''}}'') (''MISSING_'' @ var) s)"
proof -
  from substitute_all_json_dumps [OF findall_tokens_vars assms, of config]
  have "resolve_env_variables env config
          = json_loads (json_dumps (replace_in_strings
              (\<lambda>s. foldl (substitute env) s (findall_tokens (json_dumps config))) config))"
    by (simp add: resolve_env_variables_def Let_def)
  then have "resolve_env_variables env config
           = Inr (normalize (replace_in_strings
                    (\<lambda>s. foldl (substitute env) s (findall_tokens (json_dumps config))) config))"
    by (simp only: loads_dumps)
  moreover have "env var = None \<longrightarrow>
              substitute env s var = str_replace (''{{'' @ var @ ''}}'') (''MISSING_'' @ var) s"
    by (simp add: substitute_def env_value_def)
  ultimately show ?thesis by (rule conjI)
qed

theorem absent_variable_becomes_sentinel_witness:
  "list_all (env_value_plain host_env) (findall_tokens (json_dumps search_tools))
   \<and> findall_tokens (json_dumps search_tools) = [''API_KEY'', ''HOST'', ''API_KEY'']
   \<and> host_env ''API_KEY'' = None
   \<and> substitute host_env ''key={{API_KEY}}'' ''API_KEY'' = ''key=MISSING_API_KEY''
   \<and> resolve_env_variables host_env search_tools = Inr search_tools_resolved"
proof -
  have h: "list_all (env_value_plain host_env) (findall_tokens (json_dumps search_tools))"
    by code_simp
  have t: "findall_tokens (json_dumps search_tools) = [''API_KEY'', ''HOST'', ''API_KEY'']"
    by code_simp
  have n: "host_env ''API_KEY'' = None" by (simp add: host_env_def)
  have v: "normalize (replace_in_strings
             (\<lambda>s. foldl (substitute host_env) s (findall_tokens (json_dumps search_tools))) search_tools)
           = search_tools_resolved" by code_simp
  have r: "str_replace (''{{'' @ ''API_KEY'' @ ''}}'') (''MISSING_'' @ ''API_KEY'') ''key={{API_KEY}}''
             = ''key=MISSING_API_KEY''" by code_simp
  note a = absent_variable_becomes_sentinel [OF h, of "''API_KEY''" "''key={{API_KEY}}''"]
  from a v have 1: "resolve_env_variables host_env search_tools = Inr search_tools_resolved"
    by simp
  from a n r have 2: "substitute host_env ''key={{API_KEY}}'' ''API_KEY'' = ''key=MISSING_API_KEY''"
    by simp
  from h t n 2 1 show ?thesis by (intro conjI)
qed

text \<open>
  Claim C7 as stated fails. \<open>API_KEY\<close> is unset and the config holds its token, but
  \<open>HOST\<close> is set to a double quote: the text after the replacements is not the text
  of a value, and \<open>json.loads\<close> raises instead of returning structured data.
\<close>

theorem sentinel_counterexample:
  "findall_tokens (json_dumps search_tools) = [''API_KEY'', ''HOST'', ''API_KEY'']
   \<and> quote_env ''API_KEY'' = None
   \<and> resolve_env_variables quote_env search_tools = Inl JSONDecodeError"
proof -
  have t: "findall_tokens (json_dumps search_tools) = [''API_KEY'', ''HOST'', ''API_KEY'']"
    by code_simp
  have n: "quote_env ''API_KEY'' = None" by (simp add: quote_env_def)
  have r: "resolve_env_variables quote_env search_tools = Inl JSONDecodeError" by code_simp
  from t n r show ?thesis by (intro conjI)
qed

end
